theory Spec2Isabelle
  imports Complex_Main "HOL-Library.Word"
begin

unbundle bit_operations_syntax

section \<open>The phase detector: data model\<close>

text \<open>
  The model follows \<^verbatim>\<open>src/Plugins/PhaseDetector/PhaseDetector.cpp\<close>.

  Samples are C++ \<^verbatim>\<open>float\<close>s that the code only ever compares (\<^verbatim>\<open><\<close>, \<^verbatim>\<open>>\<close>,
  \<^verbatim>\<open><=\<close>, \<^verbatim>\<open>>=\<close>) with one another and with zero. On finite floats these comparisons
  agree with the order of the reals the floats denote, so a sample is a \<^typ>\<open>real\<close>;
  a NaN sample (every comparison false) is outside the model.

  The two enumerations are declared in \<^verbatim>\<open>PhaseDetector.h\<close>; only their constants
  occur in the code modelled here, and only equality on them is used.
\<close>

datatype DetectorType = PEAK | FALLING_ZERO | TROUGH | RISING_ZERO

datatype PhaseType = NO_PHASE | RISING_POS | FALLING_POS | FALLING_NEG | RISING_NEG

text \<open>
  The fields of \<^verbatim>\<open>PhaseDetectorSettings\<close>, in the order of the constructor's
  initialiser list. \<^verbatim>\<open>samplesSinceTrigger\<close> is a C++ \<^verbatim>\<open>int\<close> that is only ever set to 0
  or incremented while it is at most 2000, so it never overflows and is an \<^typ>\<open>int\<close>
  here. \<^verbatim>\<open>lastTTLWord\<close> is a \<^verbatim>\<open>uint64\<close>. The \<^verbatim>\<open>eventChannel\<close> pointer only labels the
  events for the host and is left out.
\<close>

record PhaseDetectorSettings =
  samplesSinceTrigger :: int
  lastSample :: real
  isActive :: bool
  wasTriggered :: bool
  detectorType :: DetectorType
  currentPhase :: PhaseType
  triggerChannel :: int
  outputLine :: int
  gateLine :: int
  lastOutputLine :: int
  outputLineChanged :: bool
  lastTTLWord :: "64 word"

text \<open>The constructor \<^verbatim>\<open>PhaseDetectorSettings::PhaseDetectorSettings()\<close>.\<close>

definition newSettings :: PhaseDetectorSettings where
  "newSettings =
     \<lparr> samplesSinceTrigger = 0, lastSample = 0, isActive = True, wasTriggered = False,
       detectorType = PEAK, currentPhase = NO_PHASE, triggerChannel = 0, outputLine = 0,
       gateLine = - 1, lastOutputLine = 0, outputLineChanged = False, lastTTLWord = 0 \<rparr>"

text \<open>
  A TTL event as the detector hands it to the host: the absolute sample number, the line
  and the state. The code builds events in exactly three places, and \<open>kind\<close> records
  which: \<^verbatim>\<open>createEvent (n, true)\<close> builds a \<open>TRIGGER_ON\<close> (state true) on
  \<^verbatim>\<open>outputLine\<close>, \<^verbatim>\<open>createEvent (n, false)\<close> a \<open>TRIGGER_OFF\<close> (state false) on
  \<^verbatim>\<open>outputLine\<close>, and \<^verbatim>\<open>clearOutputLine (n)\<close> a \<open>LINE_CLEAR\<close> (state false) on
  \<^verbatim>\<open>lastOutputLine\<close>. The second argument of \<^verbatim>\<open>addEvent\<close>, the position inside the
  buffer, is in every call the event's sample number minus \<^verbatim>\<open>firstSampleInBlock\<close>, so
  the model keeps the sample number only; the list of events is in the order of the
  \<^verbatim>\<open>addEvent\<close> calls.
\<close>

datatype EventKind = TRIGGER_ON | TRIGGER_OFF | LINE_CLEAR

datatype TTLEvent = TTLEvent (kind: EventKind) (sample_number: int) (line: int)

definition ttlState :: "TTLEvent \<Rightarrow> bool" where
  "ttlState e = (kind e = TRIGGER_ON)"

section \<open>Event construction\<close>

definition createEvent ::
  "PhaseDetectorSettings \<Rightarrow> int \<Rightarrow> bool \<Rightarrow> TTLEvent \<times> PhaseDetectorSettings" where
  "createEvent m sn st =
     (if st
      then (TTLEvent TRIGGER_ON sn (outputLine m),
            m\<lparr>samplesSinceTrigger := 0, wasTriggered := True\<rparr>)
      else (TTLEvent TRIGGER_OFF sn (outputLine m), m\<lparr>wasTriggered := False\<rparr>))"

definition clearOutputLine ::
  "PhaseDetectorSettings \<Rightarrow> int \<Rightarrow> TTLEvent \<times> PhaseDetectorSettings" where
  "clearOutputLine m sn =
     (TTLEvent LINE_CLEAR sn (lastOutputLine m), m\<lparr>outputLineChanged := False\<rparr>)"

section \<open>Reconfiguration and gating\<close>

text \<open>
  \<^verbatim>\<open>parameterValueChanged\<close> dispatches on the parameter's name and updates the settings
  of the parameter's stream; the model is the update of that one stream's settings, with
  one constructor per name. The payload of \<open>Phase\<close> is the selected category, already
  cast to the enumeration. The payload of \<open>Channel\<close> is the array of selected local
  channel indices; the look-up of the global index in the host's data stream is the
  function \<open>globalIndex\<close>.
\<close>

datatype Parameter =
    Phase DetectorType
  | Channel "int list"
  | TtlOut int
  | GateLine int

fun parameterValueChanged ::
  "(int \<Rightarrow> int) \<Rightarrow> Parameter \<Rightarrow> PhaseDetectorSettings \<Rightarrow> PhaseDetectorSettings" where
  "parameterValueChanged globalIndex (Phase d) m = m\<lparr>detectorType := d\<rparr>"
| "parameterValueChanged globalIndex (Channel array) m =
     (case array of
        localIndex # _ \<Rightarrow> m\<lparr>triggerChannel := globalIndex localIndex\<rparr>
      | [] \<Rightarrow> m\<lparr>triggerChannel := - 1\<rparr>)"
| "parameterValueChanged globalIndex (TtlOut v) m =
     m\<lparr>lastOutputLine := outputLine m, outputLine := v, outputLineChanged := True\<rparr>"
| "parameterValueChanged globalIndex (GateLine newGateLine) m =
     (let m1 = m\<lparr>gateLine := newGateLine\<rparr>;
          ttlWord = lastTTLWord m1
      in if newGateLine \<ge> 0
         then m1\<lparr>isActive := (ttlWord AND push_bit (nat newGateLine) 1 \<noteq> 0)\<rparr>
         else m1\<lparr>isActive := True\<rparr>)"

text \<open>
  \<^verbatim>\<open>handleTTLEvent\<close>: the incoming event's word, line and state, for the event's stream.
\<close>

definition handleTTLEvent ::
  "64 word \<Rightarrow> int \<Rightarrow> bool \<Rightarrow> PhaseDetectorSettings \<Rightarrow> PhaseDetectorSettings" where
  "handleTTLEvent word eline estate m =
     (let m1 = m\<lparr>lastTTLWord := word\<rparr>
      in if gateLine m1 > - 1
         then (if gateLine m1 = eline then m1\<lparr>isActive := estate\<rparr> else m1)
         else m1)"

section \<open>Processing a block\<close>

text \<open>
  The body of the per-sample loop, in its four parts. \<open>sn\<close> is
  \<^verbatim>\<open>firstSampleInBlock + i\<close>.

  First the chain of four landmark tests. Each branch creates an on-event when its
  landmark is the configured one, and then sets the phase.
\<close>

definition emitIfTarget ::
  "DetectorType \<Rightarrow> int \<Rightarrow> PhaseDetectorSettings \<Rightarrow> PhaseDetectorSettings \<times> TTLEvent list" where
  "emitIfTarget d sn m =
     (if detectorType m = d
      then (let (e, m') = createEvent m sn True in (m', [e]))
      else (m, []))"

definition detect ::
  "int \<Rightarrow> real \<Rightarrow> PhaseDetectorSettings \<Rightarrow> PhaseDetectorSettings \<times> TTLEvent list" where
  "detect sn sample m =
     (if sample < lastSample m \<and> sample > 0 \<and> currentPhase m \<noteq> FALLING_POS
      then (let (m1, es) = emitIfTarget PEAK sn m in (m1\<lparr>currentPhase := FALLING_POS\<rparr>, es))
      else if sample < 0 \<and> lastSample m \<ge> 0 \<and> currentPhase m \<noteq> FALLING_NEG
      then (let (m1, es) = emitIfTarget FALLING_ZERO sn m
            in (m1\<lparr>currentPhase := FALLING_NEG\<rparr>, es))
      else if sample > lastSample m \<and> sample < 0 \<and> currentPhase m \<noteq> RISING_NEG
      then (let (m1, es) = emitIfTarget TROUGH sn m in (m1\<lparr>currentPhase := RISING_NEG\<rparr>, es))
      else if sample > 0 \<and> lastSample m \<le> 0 \<and> currentPhase m \<noteq> RISING_POS
      then (let (m1, es) = emitIfTarget RISING_ZERO sn m
            in (m1\<lparr>currentPhase := RISING_POS\<rparr>, es))
      else (m, []))"

text \<open>The pulse-width bookkeeping (\<^verbatim>\<open>if (module->wasTriggered) ...\<close>).\<close>

definition pulseTimeout ::
  "int \<Rightarrow> PhaseDetectorSettings \<Rightarrow> PhaseDetectorSettings \<times> TTLEvent list" where
  "pulseTimeout sn m =
     (if wasTriggered m
      then (if samplesSinceTrigger m > 2000
            then (let (e, m') = createEvent m sn False in (m', [e]))
            else (m\<lparr>samplesSinceTrigger := samplesSinceTrigger m + 1\<rparr>, []))
      else (m, []))"

text \<open>The clearing of a replaced output line (\<^verbatim>\<open>if (module->outputLineChanged) ...\<close>).\<close>

definition lineClear ::
  "int \<Rightarrow> PhaseDetectorSettings \<Rightarrow> PhaseDetectorSettings \<times> TTLEvent list" where
  "lineClear sn m =
     (if outputLineChanged m
      then (let (e, m') = clearOutputLine m sn in (m', [e]))
      else (m, []))"

definition process_sample ::
  "int \<Rightarrow> nat \<Rightarrow> real \<Rightarrow> PhaseDetectorSettings \<Rightarrow> PhaseDetectorSettings \<times> TTLEvent list" where
  "process_sample firstSampleInBlock i sample m =
     (let sn = firstSampleInBlock + int i;
          (m1, es1) = detect sn sample m;
          m2 = m1\<lparr>lastSample := sample\<rparr>;
          (m3, es2) = pulseTimeout sn m2;
          (m4, es3) = lineClear sn m3
      in (m4, es1 @ es2 @ es3))"

text \<open>
  The loop \<^verbatim>\<open>for (int i = 0; i < numSamplesInBlock; ++i)\<close>, as a recursion over the
  samples still to be read; \<open>i\<close> is the position of the first of them.
\<close>

fun sample_loop ::
  "int \<Rightarrow> nat \<Rightarrow> real list \<Rightarrow> PhaseDetectorSettings \<Rightarrow> PhaseDetectorSettings \<times> TTLEvent list"
  where
  "sample_loop firstSampleInBlock i [] m = (m, [])"
| "sample_loop firstSampleInBlock i (sample # rest) m =
     (let (m1, es1) = process_sample firstSampleInBlock i sample m;
          (m2, es2) = sample_loop firstSampleInBlock (Suc i) rest m1
      in (m2, es1 @ es2))"

text \<open>
  The audio buffer is the list of its channels, each the list of its samples;
  \<^verbatim>\<open>getNumChannels\<close> is its length and \<^verbatim>\<open>*getReadPointer (c, i)\<close> is sample \<open>i\<close> of
  channel \<open>c\<close>. The host provides at least \<^verbatim>\<open>numSamplesInBlock\<close> samples in every
  channel.
\<close>

type_synonym AudioBuffer = "real list list"

definition blockSamples :: "AudioBuffer \<Rightarrow> int \<Rightarrow> nat \<Rightarrow> real list" where
  "blockSamples buffer channel numSamplesInBlock =
     map (\<lambda>i. buffer ! nat channel ! i) [0..<numSamplesInBlock]"

text \<open>The guard of the loop: the detector is active and has a line and a channel.\<close>

definition canDetect :: "PhaseDetectorSettings \<Rightarrow> AudioBuffer \<Rightarrow> bool" where
  "canDetect m buffer \<longleftrightarrow>
     isActive m \<and> outputLine m \<ge> 0 \<and> triggerChannel m \<ge> 0
     \<and> triggerChannel m < int (length buffer)"

text \<open>
  The body of \<^verbatim>\<open>process\<close> for one enabled stream has two parts: the loop under its
  guard, and then the forced off-event at the block's first sample (\<^verbatim>\<open>If event is on
  when 'None' is selected in channel selector, turn off event\<close>).
\<close>

definition guardedLoop ::
  "PhaseDetectorSettings \<Rightarrow> AudioBuffer \<Rightarrow> int \<Rightarrow> nat
     \<Rightarrow> PhaseDetectorSettings \<times> TTLEvent list" where
  "guardedLoop m buffer firstSampleInBlock numSamplesInBlock =
     (if canDetect m buffer
      then sample_loop firstSampleInBlock 0
             (blockSamples buffer (triggerChannel m) numSamplesInBlock) m
      else (m, []))"

definition endOfBlock ::
  "PhaseDetectorSettings \<Rightarrow> int \<Rightarrow> PhaseDetectorSettings \<times> TTLEvent list" where
  "endOfBlock m firstSampleInBlock =
     (if wasTriggered m \<and> (triggerChannel m < 0 \<or> isActive m = False)
      then (let (e, m') = createEvent m firstSampleInBlock False in (m', [e]))
      else (m, []))"

definition process_stream ::
  "PhaseDetectorSettings \<Rightarrow> AudioBuffer \<Rightarrow> int \<Rightarrow> nat
     \<Rightarrow> PhaseDetectorSettings \<times> TTLEvent list" where
  "process_stream m buffer firstSampleInBlock numSamplesInBlock =
     (let (m1, es1) = guardedLoop m buffer firstSampleInBlock numSamplesInBlock;
          (m2, es2) = endOfBlock m1 firstSampleInBlock
      in (m2, es1 @ es2))"

text \<open>
  Successive calls of \<^verbatim>\<open>process\<close> for one stream, with no reconfiguration and no gate
  event between them: each block is a buffer, the number of its first sample and its
  number of samples.
\<close>

fun process_blocks ::
  "PhaseDetectorSettings \<Rightarrow> (AudioBuffer \<times> int \<times> nat) list
     \<Rightarrow> PhaseDetectorSettings \<times> TTLEvent list" where
  "process_blocks m [] = (m, [])"
| "process_blocks m ((buffer, firstSampleInBlock, numSamplesInBlock) # rest) =
     (let (m1, es1) = process_stream m buffer firstSampleInBlock numSamplesInBlock;
          (m2, es2) = process_blocks m1 rest
      in (m2, es1 @ es2))"

text \<open>
  A run of one stream as the host drives it. Between two blocks the host may call
  \<^verbatim>\<open>parameterValueChanged\<close>, and at the start of \<^verbatim>\<open>process\<close> the call \<^verbatim>\<open>checkForEvents\<close>
  hands every incoming TTL event of the stream to \<^verbatim>\<open>handleTTLEvent\<close>. A run is the list
  of these three kinds of steps, in the order in which they happen.
\<close>

datatype RunItem =
    Block AudioBuffer int nat
  | Reconfigure Parameter
  | TTLInput "64 word" int bool

fun process_run ::
  "(int \<Rightarrow> int) \<Rightarrow> PhaseDetectorSettings \<Rightarrow> RunItem list
     \<Rightarrow> PhaseDetectorSettings \<times> TTLEvent list" where
  "process_run globalIndex m [] = (m, [])"
| "process_run globalIndex m (Block buffer firstSampleInBlock numSamplesInBlock # rest) =
     (let (m1, es1) = process_stream m buffer firstSampleInBlock numSamplesInBlock;
          (m2, es2) = process_run globalIndex m1 rest
      in (m2, es1 @ es2))"
| "process_run globalIndex m (Reconfigure param # rest) =
     process_run globalIndex (parameterValueChanged globalIndex param m) rest"
| "process_run globalIndex m (TTLInput word eline estate # rest) =
     process_run globalIndex (handleTTLEvent word eline estate m) rest"

section \<open>Notions used in the statements\<close>

text \<open>
  The landmark that the chain of tests in \<open>detect\<close> finds at a sample, if any (the
  conditions are those of \<open>detect\<close>, in its order), and the phase that the branch of a
  landmark sets.
\<close>

definition landmark :: "PhaseDetectorSettings \<Rightarrow> real \<Rightarrow> DetectorType option" where
  "landmark m sample =
     (if sample < lastSample m \<and> sample > 0 \<and> currentPhase m \<noteq> FALLING_POS then Some PEAK
      else if sample < 0 \<and> lastSample m \<ge> 0 \<and> currentPhase m \<noteq> FALLING_NEG
      then Some FALLING_ZERO
      else if sample > lastSample m \<and> sample < 0 \<and> currentPhase m \<noteq> RISING_NEG
      then Some TROUGH
      else if sample > 0 \<and> lastSample m \<le> 0 \<and> currentPhase m \<noteq> RISING_POS
      then Some RISING_ZERO
      else None)"

fun phaseOf :: "DetectorType \<Rightarrow> PhaseType" where
  "phaseOf PEAK = FALLING_POS"
| "phaseOf FALLING_ZERO = FALLING_NEG"
| "phaseOf TROUGH = RISING_NEG"
| "phaseOf RISING_ZERO = RISING_POS"

text \<open>A sample matches the target when the landmark found is the configured one.\<close>

definition targetHit :: "PhaseDetectorSettings \<Rightarrow> real \<Rightarrow> bool" where
  "targetHit m sample \<longleftrightarrow> landmark m sample = Some (detectorType m)"

text \<open>The pulse times out at a sample that is no match and finds the counter above 2000.\<close>

definition timedOut :: "PhaseDetectorSettings \<Rightarrow> real \<Rightarrow> bool" where
  "timedOut m sample \<longleftrightarrow>
     \<not> targetHit m sample \<and> wasTriggered m \<and> samplesSinceTrigger m > 2000"

text \<open>The landmarks found along a run of the loop, in order.\<close>

fun landmarksSeen :: "int \<Rightarrow> nat \<Rightarrow> real list \<Rightarrow> PhaseDetectorSettings \<Rightarrow> DetectorType list"
  where
  "landmarksSeen firstSampleInBlock i [] m = []"
| "landmarksSeen firstSampleInBlock i (sample # rest) m =
     (case landmark m sample of None \<Rightarrow> [] | Some L \<Rightarrow> [L])
     @ landmarksSeen firstSampleInBlock (Suc i) rest
         (fst (process_sample firstSampleInBlock i sample m))"

definition isOn :: "TTLEvent \<Rightarrow> bool" where
  "isOn e \<longleftrightarrow> kind e = TRIGGER_ON"

definition isOff :: "TTLEvent \<Rightarrow> bool" where
  "isOff e \<longleftrightarrow> kind e = TRIGGER_OFF"

definition isClear :: "TTLEvent \<Rightarrow> bool" where
  "isClear e \<longleftrightarrow> kind e = LINE_CLEAR"

text \<open>
  The fixed order of the events of one sample: the landmark's on-event, the time-out's
  off-event, the line clear. One event comes before another when its sample number is
  smaller, or the sample numbers are equal and its kind comes first.
\<close>

fun kindRank :: "EventKind \<Rightarrow> nat" where
  "kindRank TRIGGER_ON = 0"
| "kindRank TRIGGER_OFF = 1"
| "kindRank LINE_CLEAR = 2"

definition before :: "TTLEvent \<Rightarrow> TTLEvent \<Rightarrow> bool" where
  "before a b \<longleftrightarrow>
     sample_number a < sample_number b
     \<or> (sample_number a = sample_number b \<and> kindRank (kind a) < kindRank (kind b))"

text \<open>
  A block in which the loop runs at least once: the guard holds and there is a sample.
\<close>

fun runsLoop :: "PhaseDetectorSettings \<Rightarrow> AudioBuffer \<times> int \<times> nat \<Rightarrow> bool" where
  "runsLoop m (buffer, firstSampleInBlock, numSamplesInBlock) \<longleftrightarrow>
     canDetect m buffer \<and> numSamplesInBlock > 0"

text \<open>
  Blocks that follow one another in the stream: the first starts at sample \<open>n\<close>, and each
  next one where the one before ends. \<open>endOfRun\<close> is the sample number after the last.
\<close>

fun contiguous :: "int \<Rightarrow> (AudioBuffer \<times> int \<times> nat) list \<Rightarrow> bool" where
  "contiguous n [] \<longleftrightarrow> True"
| "contiguous n ((buffer, firstSampleInBlock, numSamplesInBlock) # rest) \<longleftrightarrow>
     firstSampleInBlock = n \<and> contiguous (n + int numSamplesInBlock) rest"

fun endOfRun :: "int \<Rightarrow> (AudioBuffer \<times> int \<times> nat) list \<Rightarrow> int" where
  "endOfRun n [] = n"
| "endOfRun n ((buffer, firstSampleInBlock, numSamplesInBlock) # rest) =
     endOfRun (n + int numSamplesInBlock) rest"

text \<open>The samples that a run of blocks feeds to the loop, block after block.\<close>

definition runSamples :: "PhaseDetectorSettings \<Rightarrow> (AudioBuffer \<times> int \<times> nat) list \<Rightarrow> real list" where
  "runSamples m blocks =
     concat (map (\<lambda>(buffer, firstSampleInBlock, numSamplesInBlock).
                    blockSamples buffer (triggerChannel m) numSamplesInBlock) blocks)"

text \<open>
  An example run of two blocks that follow one another on channel 0: five samples with two
  peaks (at samples 1 and 4), then 2001 samples that stay at the last value.
\<close>

definition exampleBlocks :: "(AudioBuffer \<times> int \<times> nat) list" where
  "exampleBlocks =
     [([[0.5, 0.3, - 0.1, 0.5, 0.3]], 0, 5), ([replicate 2001 0.3], 5, 2001)]"

text \<open>
  Notions for runs. The guard of the loop holds at every block of the run, in the state
  in which the block is processed (the detector is active there, with a line and a valid
  channel).
\<close>

fun runUnderGuard :: "(int \<Rightarrow> int) \<Rightarrow> PhaseDetectorSettings \<Rightarrow> RunItem list \<Rightarrow> bool" where
  "runUnderGuard g m [] \<longleftrightarrow> True"
| "runUnderGuard g m (Block buffer firstSampleInBlock numSamplesInBlock # rest) \<longleftrightarrow>
     canDetect m buffer
     \<and> runUnderGuard g (fst (process_stream m buffer firstSampleInBlock numSamplesInBlock)) rest"
| "runUnderGuard g m (Reconfigure param # rest) \<longleftrightarrow>
     runUnderGuard g (parameterValueChanged g param m) rest"
| "runUnderGuard g m (TTLInput word eline estate # rest) \<longleftrightarrow>
     runUnderGuard g (handleTTLEvent word eline estate m) rest"

text \<open>No block of the run runs the loop, each taken in the state in which it is processed.\<close>

fun skipsLoop :: "(int \<Rightarrow> int) \<Rightarrow> PhaseDetectorSettings \<Rightarrow> RunItem list \<Rightarrow> bool" where
  "skipsLoop g m [] \<longleftrightarrow> True"
| "skipsLoop g m (Block buffer firstSampleInBlock numSamplesInBlock # rest) \<longleftrightarrow>
     \<not> runsLoop m (buffer, firstSampleInBlock, numSamplesInBlock)
     \<and> skipsLoop g (fst (process_stream m buffer firstSampleInBlock numSamplesInBlock)) rest"
| "skipsLoop g m (Reconfigure param # rest) \<longleftrightarrow>
     skipsLoop g (parameterValueChanged g param m) rest"
| "skipsLoop g m (TTLInput word eline estate # rest) \<longleftrightarrow>
     skipsLoop g (handleTTLEvent word eline estate m) rest"

text \<open>
  The blocks of the run follow one another in the stream from sample \<open>n\<close> on, and the
  sample number after the last of them.
\<close>

fun contiguousRun :: "int \<Rightarrow> RunItem list \<Rightarrow> bool" where
  "contiguousRun n [] \<longleftrightarrow> True"
| "contiguousRun n (Block buffer firstSampleInBlock numSamplesInBlock # rest) \<longleftrightarrow>
     firstSampleInBlock = n \<and> contiguousRun (n + int numSamplesInBlock) rest"
| "contiguousRun n (Reconfigure param # rest) \<longleftrightarrow> contiguousRun n rest"
| "contiguousRun n (TTLInput word eline estate # rest) \<longleftrightarrow> contiguousRun n rest"

fun endOfItems :: "int \<Rightarrow> RunItem list \<Rightarrow> int" where
  "endOfItems n [] = n"
| "endOfItems n (Block buffer firstSampleInBlock numSamplesInBlock # rest) =
     endOfItems (n + int numSamplesInBlock) rest"
| "endOfItems n (Reconfigure param # rest) = endOfItems n rest"
| "endOfItems n (TTLInput word eline estate # rest) = endOfItems n rest"

text \<open>
  The output line in force when sample \<open>t\<close> of the run is processed: the \<open>outputLine\<close> of the
  state in which the block holding \<open>t\<close> is processed.
\<close>

fun outputLineAt ::
  "(int \<Rightarrow> int) \<Rightarrow> PhaseDetectorSettings \<Rightarrow> RunItem list \<Rightarrow> int \<Rightarrow> int" where
  "outputLineAt g m [] t = outputLine m"
| "outputLineAt g m (Block buffer firstSampleInBlock numSamplesInBlock # rest) t =
     (if t < firstSampleInBlock + int numSamplesInBlock then outputLine m
      else outputLineAt g (fst (process_stream m buffer firstSampleInBlock numSamplesInBlock))
             rest t)"
| "outputLineAt g m (Reconfigure param # rest) t =
     outputLineAt g (parameterValueChanged g param m) rest t"
| "outputLineAt g m (TTLInput word eline estate # rest) t =
     outputLineAt g (handleTTLEvent word eline estate m) rest t"

text \<open>The run holds no change of the output line.\<close>

definition keepsOutputLine :: "RunItem list \<Rightarrow> bool" where
  "keepsOutputLine items \<longleftrightarrow> list_all (\<lambda>x. case x of Reconfigure (TtlOut v) \<Rightarrow> False | _ \<Rightarrow> True) items"

text \<open>
  An example run with a change of the output line during a pulse: one sample that is a
  peak (after a last sample of 1), the output line changed to 5, then 2001 samples that
  stay at the last value. And an example run with the output line changed while the gate
  is closed: a block, the gate line 2 going high, and two more blocks.
\<close>

definition reconfiguredRun :: "RunItem list" where
  "reconfiguredRun =
     [Block [[0.5]] 0 1, Reconfigure (TtlOut 5), Block [replicate 2001 0.5] 1 2001]"

definition gatedRun :: "RunItem list" where
  "gatedRun =
     [Block [[0.1, 0.2]] 0 2, TTLInput 4 2 True, Block [[0.3, 0.4]] 2 2, Block [[0.4, 0.5]] 4 2]"

text \<open>
  The state before the pulse of the example runs (output line 3, last sample 1), and the
  first example run with an unrelated TTL event in place of the change of the output line.
\<close>

definition peakState :: PhaseDetectorSettings where
  "peakState = newSettings\<lparr>outputLine := 3, lastSample := 1\<rparr>"

definition interleavedRun :: "RunItem list" where
  "interleavedRun =
     [Block [[0.5]] 0 1, TTLInput 1 0 True, Block [replicate 2001 0.5] 1 2001]"

section \<open>One sample\<close>

lemma detect_eq:
  "detect sn s m =
     (if targetHit m s
      then (m\<lparr>samplesSinceTrigger := 0, wasTriggered := True,
               currentPhase := phaseOf (detectorType m)\<rparr>,
            [TTLEvent TRIGGER_ON sn (outputLine m)])
      else (case landmark m s of None \<Rightarrow> m | Some L \<Rightarrow> m\<lparr>currentPhase := phaseOf L\<rparr>, []))"
  by (auto simp add: detect_def landmark_def targetHit_def emitIfTarget_def createEvent_def)

lemmas step_defs = process_sample_def detect_eq pulseTimeout_def lineClear_def createEvent_def
  clearOutputLine_def timedOut_def Let_def

lemma process_sample_events:
  "snd (process_sample first i s m) =
     (if targetHit m s then [TTLEvent TRIGGER_ON (first + int i) (outputLine m)] else [])
     @ (if timedOut m s then [TTLEvent TRIGGER_OFF (first + int i) (outputLine m)] else [])
     @ (if outputLineChanged m then [TTLEvent LINE_CLEAR (first + int i) (lastOutputLine m)]
        else [])"
  by (simp add: step_defs split: option.splits)

lemma process_sample_frame:
  "isActive (fst (process_sample first i s m)) = isActive m"
  "detectorType (fst (process_sample first i s m)) = detectorType m"
  "triggerChannel (fst (process_sample first i s m)) = triggerChannel m"
  "outputLine (fst (process_sample first i s m)) = outputLine m"
  "gateLine (fst (process_sample first i s m)) = gateLine m"
  "lastOutputLine (fst (process_sample first i s m)) = lastOutputLine m"
  "lastTTLWord (fst (process_sample first i s m)) = lastTTLWord m"
  by (simp_all add: step_defs split: option.splits)

lemma process_sample_lastSample:
  "lastSample (fst (process_sample first i s m)) = s"
  by (simp add: step_defs split: option.splits)

lemma process_sample_outputLineChanged:
  "outputLineChanged (fst (process_sample first i s m)) = False"
  by (simp add: step_defs split: option.splits)

lemma process_sample_currentPhase:
  "currentPhase (fst (process_sample first i s m)) =
     (case landmark m s of None \<Rightarrow> currentPhase m | Some L \<Rightarrow> phaseOf L)"
  by (simp add: step_defs targetHit_def split: option.splits)

lemma process_sample_wasTriggered:
  "wasTriggered (fst (process_sample first i s m)) =
     (targetHit m s \<or> (wasTriggered m \<and> samplesSinceTrigger m \<le> 2000))"
  by (auto simp add: step_defs split: option.splits)

lemma process_sample_samplesSinceTrigger:
  "samplesSinceTrigger (fst (process_sample first i s m)) =
     (if targetHit m s then 1
      else if wasTriggered m \<and> samplesSinceTrigger m \<le> 2000 then samplesSinceTrigger m + 1
      else samplesSinceTrigger m)"
  by (simp add: step_defs split: option.splits)

section \<open>The loop\<close>

lemma sample_loop_Cons_fst:
  "fst (sample_loop first i (s # xs) m) =
     fst (sample_loop first (Suc i) xs (fst (process_sample first i s m)))"
  by (simp add: split_def Let_def)

lemma sample_loop_Cons_snd:
  "snd (sample_loop first i (s # xs) m) =
     snd (process_sample first i s m)
     @ snd (sample_loop first (Suc i) xs (fst (process_sample first i s m)))"
  by (simp add: split_def Let_def)

declare sample_loop.simps(2) [simp del]

lemmas loop_Cons = sample_loop_Cons_fst sample_loop_Cons_snd

lemma process_sample_shift:
  "first + int i = first' + int i' \<Longrightarrow> process_sample first i s m = process_sample first' i' s m"
  by (simp add: process_sample_def)

lemma sample_loop_shift:
  "first + int i = first' + int i' \<Longrightarrow> sample_loop first i xs m = sample_loop first' i' xs m"
proof (induction xs arbitrary: i i' m)
  case Nil
  show ?case by simp
next
  case (Cons s xs)
  have "process_sample first i s m = process_sample first' i' s m"
    using Cons.prems by (rule process_sample_shift)
  moreover have "sample_loop first (Suc i) xs m1 = sample_loop first' (Suc i') xs m1" for m1
    using Cons.prems by (intro Cons.IH) simp
  ultimately show ?case by (simp add: sample_loop.simps(2))
qed

lemma sample_loop_append:
  "sample_loop first i (xs @ ys) m =
     (let (m1, es1) = sample_loop first i xs m;
          (m2, es2) = sample_loop first (i + length xs) ys m1
      in (m2, es1 @ es2))"
  by (induction xs arbitrary: i m) (simp_all add: split_def Let_def sample_loop.simps(2))

lemma sample_loop_frame:
  "isActive (fst (sample_loop first i xs m)) = isActive m"
  "detectorType (fst (sample_loop first i xs m)) = detectorType m"
  "triggerChannel (fst (sample_loop first i xs m)) = triggerChannel m"
  "outputLine (fst (sample_loop first i xs m)) = outputLine m"
  "gateLine (fst (sample_loop first i xs m)) = gateLine m"
  "lastOutputLine (fst (sample_loop first i xs m)) = lastOutputLine m"
  "lastTTLWord (fst (sample_loop first i xs m)) = lastTTLWord m"
  by (induction xs arbitrary: i m; simp add: sample_loop_Cons_fst process_sample_frame)+

lemma process_sample_sample_number:
  "e \<in> set (snd (process_sample first i s m)) \<Longrightarrow> sample_number e = first + int i"
  by (auto simp add: process_sample_events split: if_splits)

lemma sample_loop_sample_number:
  "e \<in> set (snd (sample_loop first i xs m)) \<Longrightarrow>
     first + int i \<le> sample_number e \<and> sample_number e < first + int i + int (length xs)"
proof (induction xs arbitrary: i m)
  case Nil
  then show ?case by simp
next
  case (Cons s xs)
  from Cons.prems
  consider "e \<in> set (snd (process_sample first i s m))"
    | "e \<in> set (snd (sample_loop first (Suc i) xs (fst (process_sample first i s m))))"
    by (auto simp add: sample_loop_Cons_snd)
  then show ?case
  proof cases
    case 1
    then show ?thesis using process_sample_sample_number by fastforce
  next
    case 2
    from Cons.IH [OF 2] show ?thesis by simp
  qed
qed

section \<open>The pulse-width countdown\<close>

lemma process_sample_on:
  "e \<in> set (snd (process_sample first i s m)) \<Longrightarrow> isOn e \<Longrightarrow>
     targetHit m s \<and> e = TTLEvent TRIGGER_ON (first + int i) (outputLine m)"
  by (auto simp add: process_sample_events isOn_def split: if_splits)

lemma process_sample_off:
  "e \<in> set (snd (process_sample first i s m)) \<Longrightarrow> isOff e \<Longrightarrow>
     timedOut m s \<and> e = TTLEvent TRIGGER_OFF (first + int i) (outputLine m)"
  by (auto simp add: process_sample_events isOff_def split: if_splits)

lemma no_off_before:
  assumes "wasTriggered m" "0 \<le> samplesSinceTrigger m" "samplesSinceTrigger m \<le> 2001 - int d"
    and "e \<in> set (snd (sample_loop first i xs m))" "isOff e"
  shows "first + int i + int d \<le> sample_number e"
  using assms
proof (induction xs arbitrary: i m d)
  case Nil
  then show ?case by simp
next
  case (Cons s xs)
  show ?case
  proof (cases d)
    case 0
    with sample_loop_sample_number [OF Cons.prems(4)] show ?thesis by simp
  next
    case (Suc d')
    let ?m1 = "fst (process_sample first i s m)"
    from Cons.prems(4)
    consider "e \<in> set (snd (process_sample first i s m))"
      | "e \<in> set (snd (sample_loop first (Suc i) xs ?m1))"
      by (auto simp add: loop_Cons)
    then show ?thesis
    proof cases
      case 1
      from process_sample_off [OF 1 Cons.prems(5)] have "timedOut m s" by simp
      with Cons.prems(3) Suc show ?thesis by (simp add: timedOut_def)
    next
      case 2
      have w: "wasTriggered ?m1"
        using Cons.prems(1,3) Suc by (simp add: process_sample_wasTriggered)
      have lo: "0 \<le> samplesSinceTrigger ?m1"
        using Cons.prems(2) by (simp add: process_sample_samplesSinceTrigger)
      have hi: "samplesSinceTrigger ?m1 \<le> 2001 - int d'"
        using Cons.prems(1,2,3) Suc by (simp add: process_sample_samplesSinceTrigger)
      from Cons.IH [OF w lo hi 2 Cons.prems(5)] Suc show ?thesis by simp
    qed
  qed
qed

lemma off_at:
  assumes "wasTriggered m" "samplesSinceTrigger m = 2001 - int d" "d < length xs"
    and "\<forall>e \<in> set (snd (sample_loop first i xs m)). isOn e \<longrightarrow> first + int i + int d < sample_number e"
  shows "TTLEvent TRIGGER_OFF (first + int i + int d) (outputLine m)
           \<in> set (snd (sample_loop first i xs m))"
  using assms
proof (induction xs arbitrary: i m d)
  case Nil
  then show ?case by simp
next
  case (Cons s xs)
  let ?m1 = "fst (process_sample first i s m)"
  have nohit: "\<not> targetHit m s"
  proof
    assume "targetHit m s"
    then have "TTLEvent TRIGGER_ON (first + int i) (outputLine m)
                 \<in> set (snd (sample_loop first i (s # xs) m))"
      by (simp add: loop_Cons process_sample_events)
    with Cons.prems(4) show False by (fastforce simp add: isOn_def)
  qed
  show ?case
  proof (cases d)
    case 0
    with Cons.prems(1,2) nohit have "timedOut m s" by (simp add: timedOut_def)
    with 0 show ?thesis
      by (simp add: loop_Cons process_sample_events)
  next
    case (Suc d')
    have w: "wasTriggered ?m1"
      using Cons.prems(1,2) Suc by (simp add: process_sample_wasTriggered)
    have c: "samplesSinceTrigger ?m1 = 2001 - int d'"
      using Cons.prems(1,2) Suc nohit by (simp add: process_sample_samplesSinceTrigger)
    have l: "d' < length xs" using Cons.prems(3) Suc by simp
    have q: "\<forall>e \<in> set (snd (sample_loop first (Suc i) xs ?m1)).
               isOn e \<longrightarrow> first + int (Suc i) + int d' < sample_number e"
    proof (intro ballI impI)
      fix x assume x: "x \<in> set (snd (sample_loop first (Suc i) xs ?m1))" "isOn x"
      then have "x \<in> set (snd (sample_loop first i (s # xs) m))" by (simp add: loop_Cons)
      with Cons.prems(4) x(2) have "first + int i + int d < sample_number x" by blast
      with Suc show "first + int (Suc i) + int d' < sample_number x" by simp
    qed
    have eq: "first + int (Suc i) + int d' = first + int i + int d" using Suc by simp
    from Cons.IH [OF w c l q] show ?thesis
      unfolding eq by (simp add: loop_Cons process_sample_frame)
  qed
qed

lemma loop_on_line:
  "e \<in> set (snd (sample_loop first i xs m)) \<Longrightarrow> isOn e \<Longrightarrow> line e = outputLine m"
proof (induction xs arbitrary: i m)
  case Nil
  then show ?case by simp
next
  case (Cons s xs)
  from Cons.prems(1)
  consider "e \<in> set (snd (process_sample first i s m))"
    | "e \<in> set (snd (sample_loop first (Suc i) xs (fst (process_sample first i s m))))"
    by (auto simp add: loop_Cons)
  then show ?case
  proof cases
    case 1
    from process_sample_on [OF 1 Cons.prems(2)] show ?thesis by simp
  next
    case 2
    from Cons.IH [OF 2 Cons.prems(2)] show ?thesis by (simp add: process_sample_frame)
  qed
qed

lemma loop_on_quiet:
  assumes "e \<in> set (snd (sample_loop first i xs m))" "isOn e"
    and "e' \<in> set (snd (sample_loop first i xs m))" "isOff e'"
  shows "\<not> (sample_number e \<le> sample_number e' \<and> sample_number e' < sample_number e + 2001)"
  using assms
proof (induction xs arbitrary: i m)
  case Nil
  then show ?case by simp
next
  case (Cons s xs)
  let ?m1 = "fst (process_sample first i s m)"
  let ?step = "set (snd (process_sample first i s m))"
  let ?rest = "set (snd (sample_loop first (Suc i) xs ?m1))"
  have mem: "x \<in> set (snd (sample_loop first i (s # xs) m)) \<longleftrightarrow> x \<in> ?step \<or> x \<in> ?rest" for x
    by (auto simp add: loop_Cons)
  from Cons.prems(1) mem consider "e \<in> ?step" | "e \<in> ?rest" by blast
  then show ?case
  proof cases
    case 1
    from process_sample_on [OF 1 Cons.prems(2)]
    have hit: "targetHit m s" and K: "sample_number e = first + int i" by simp_all
    from Cons.prems(3) mem consider "e' \<in> ?step" | "e' \<in> ?rest" by blast
    then show ?thesis
    proof cases
      case 1
      from process_sample_off [OF 1 Cons.prems(4)] hit show ?thesis
        by (simp add: timedOut_def)
    next
      case 2
      have w: "wasTriggered ?m1" using hit by (simp add: process_sample_wasTriggered)
      have c: "samplesSinceTrigger ?m1 = 1" using hit by (simp add: process_sample_samplesSinceTrigger)
      have "first + int (Suc i) + int 2000 \<le> sample_number e'"
        by (rule no_off_before [OF w _ _ 2 Cons.prems(4)]) (simp_all add: c)
      with K show ?thesis by simp
    qed
  next
    case 2
    from Cons.prems(3) mem consider "e' \<in> ?step" | "e' \<in> ?rest" by blast
    then show ?thesis
    proof cases
      case 1
      from process_sample_sample_number [OF 1] sample_loop_sample_number [OF 2]
      show ?thesis by simp
    next
      case r: 2
      from Cons.IH [OF 2 Cons.prems(2) r Cons.prems(4)] show ?thesis .
    qed
  qed
qed

lemma loop_on_off:
  assumes "e \<in> set (snd (sample_loop first i xs m))" "isOn e"
    and "sample_number e + 2001 < first + int i + int (length xs)"
    and "\<forall>e' \<in> set (snd (sample_loop first i xs m)).
           isOn e' \<longrightarrow> \<not> (sample_number e < sample_number e' \<and> sample_number e' \<le> sample_number e + 2001)"
  shows "TTLEvent TRIGGER_OFF (sample_number e + 2001) (outputLine m)
           \<in> set (snd (sample_loop first i xs m))"
  using assms
proof (induction xs arbitrary: i m)
  case Nil
  then show ?case by simp
next
  case (Cons s xs)
  let ?m1 = "fst (process_sample first i s m)"
  let ?step = "set (snd (process_sample first i s m))"
  let ?rest = "set (snd (sample_loop first (Suc i) xs ?m1))"
  have mem: "x \<in> set (snd (sample_loop first i (s # xs) m)) \<longleftrightarrow> x \<in> ?step \<or> x \<in> ?rest" for x
    by (auto simp add: loop_Cons)
  from Cons.prems(1) mem consider "e \<in> ?step" | "e \<in> ?rest" by blast
  then show ?case
  proof cases
    case 1
    from process_sample_on [OF 1 Cons.prems(2)]
    have hit: "targetHit m s" and K: "sample_number e = first + int i" by simp_all
    have w: "wasTriggered ?m1" using hit by (simp add: process_sample_wasTriggered)
    have c: "samplesSinceTrigger ?m1 = 2001 - int 2000"
      using hit by (simp add: process_sample_samplesSinceTrigger)
    have l: "2000 < length xs" using Cons.prems(3) K by simp
    have q: "\<forall>x \<in> ?rest. isOn x \<longrightarrow> first + int (Suc i) + int 2000 < sample_number x"
    proof (intro ballI impI)
      fix x assume x: "x \<in> ?rest" "isOn x"
      from sample_loop_sample_number [OF x(1)] K have "sample_number e < sample_number x" by simp
      moreover from x mem Cons.prems(4)
      have "\<not> (sample_number e < sample_number x \<and> sample_number x \<le> sample_number e + 2001)"
        by blast
      ultimately show "first + int (Suc i) + int 2000 < sample_number x" using K by simp
    qed
    have eq: "first + int (Suc i) + int 2000 = sample_number e + 2001" using K by simp
    from off_at [OF w c l q] have "TTLEvent TRIGGER_OFF (sample_number e + 2001) (outputLine m) \<in> ?rest"
      unfolding eq by (simp add: process_sample_frame)
    with mem show ?thesis by blast
  next
    case 2
    have l: "sample_number e + 2001 < first + int (Suc i) + int (length xs)"
      using Cons.prems(3) by simp
    have q: "\<forall>e' \<in> ?rest. isOn e' \<longrightarrow>
               \<not> (sample_number e < sample_number e' \<and> sample_number e' \<le> sample_number e + 2001)"
      using Cons.prems(4) mem by blast
    from Cons.IH [OF 2 Cons.prems(2) l q]
    have "TTLEvent TRIGGER_OFF (sample_number e + 2001) (outputLine m) \<in> ?rest"
      by (simp add: process_sample_frame)
    with mem show ?thesis by blast
  qed
qed

section \<open>Blocks and runs of blocks\<close>

lemma endOfBlock_eq:
  "endOfBlock m first =
     (if wasTriggered m \<and> (triggerChannel m < 0 \<or> \<not> isActive m)
      then (m\<lparr>wasTriggered := False\<rparr>, [TTLEvent TRIGGER_OFF first (outputLine m)])
      else (m, []))"
  by (simp add: endOfBlock_def createEvent_def)

lemma length_blockSamples [simp]: "length (blockSamples buffer c n) = n"
  by (simp add: blockSamples_def)

lemma process_stream_canDetect:
  assumes "canDetect m buffer"
  shows "process_stream m buffer first n =
           sample_loop first 0 (blockSamples buffer (triggerChannel m) n) m"
proof -
  let ?r = "sample_loop first 0 (blockSamples buffer (triggerChannel m) n) m"
  have "isActive (fst ?r)" "0 \<le> triggerChannel (fst ?r)"
    using assms by (simp_all add: sample_loop_frame canDetect_def)
  then have "endOfBlock (fst ?r) first = (fst ?r, [])"
    by (simp add: endOfBlock_eq)
  then show ?thesis
    using assms by (simp add: process_stream_def guardedLoop_def split_def)
qed

lemma process_stream_not_canDetect:
  "\<not> canDetect m buffer \<Longrightarrow> process_stream m buffer first n = endOfBlock m first"
  by (simp add: process_stream_def guardedLoop_def)

lemma endOfBlock_frame:
  "isActive (fst (endOfBlock m first)) = isActive m"
  "detectorType (fst (endOfBlock m first)) = detectorType m"
  "triggerChannel (fst (endOfBlock m first)) = triggerChannel m"
  "outputLine (fst (endOfBlock m first)) = outputLine m"
  "lastOutputLine (fst (endOfBlock m first)) = lastOutputLine m"
  "outputLineChanged (fst (endOfBlock m first)) = outputLineChanged m"
  by (simp_all add: endOfBlock_eq)

lemma process_stream_frame:
  "isActive (fst (process_stream m buffer first n)) = isActive m"
  "detectorType (fst (process_stream m buffer first n)) = detectorType m"
  "triggerChannel (fst (process_stream m buffer first n)) = triggerChannel m"
  "outputLine (fst (process_stream m buffer first n)) = outputLine m"
  "lastOutputLine (fst (process_stream m buffer first n)) = lastOutputLine m"
  by (cases "canDetect m buffer";
      simp add: process_stream_canDetect process_stream_not_canDetect sample_loop_frame
        endOfBlock_frame)+

lemma canDetect_process_stream:
  "canDetect (fst (process_stream m buffer first n)) b = canDetect m b"
  by (simp add: canDetect_def process_stream_frame)

lemma process_blocks_Cons_fst:
  "fst (process_blocks m ((buffer, first, n) # rest)) =
     fst (process_blocks (fst (process_stream m buffer first n)) rest)"
  by (simp add: split_def Let_def)

lemma process_blocks_Cons_snd:
  "snd (process_blocks m ((buffer, first, n) # rest)) =
     snd (process_stream m buffer first n)
     @ snd (process_blocks (fst (process_stream m buffer first n)) rest)"
  by (simp add: split_def Let_def)

declare process_blocks.simps(2) [simp del]

lemmas blocks_Cons = process_blocks_Cons_fst process_blocks_Cons_snd

lemma runSamples_Cons:
  "runSamples m ((buffer, first, n) # rest) =
     blockSamples buffer (triggerChannel m) n @ runSamples m rest"
  by (simp add: runSamples_def)

lemma runSamples_triggerChannel:
  "triggerChannel m' = triggerChannel m \<Longrightarrow> runSamples m' blocks = runSamples m blocks"
  by (simp add: runSamples_def)

lemma endOfRun_runSamples:
  "endOfRun first blocks = first + int (length (runSamples m blocks))"
proof (induction blocks arbitrary: first)
  case Nil
  show ?case by (simp add: runSamples_def)
next
  case (Cons b blocks)
  obtain buffer f n where b: "b = (buffer, f, n)" by (cases b)
  show ?case unfolding b by (simp add: Cons.IH [of "first + int n"] runSamples_Cons)
qed

lemma run_as_loop:
  assumes "\<forall>b \<in> set blocks. canDetect m (fst b)" "contiguous first blocks"
  shows "process_blocks m blocks = sample_loop first 0 (runSamples m blocks) m"
  using assms
proof (induction blocks arbitrary: m first)
  case Nil
  show ?case by (simp add: runSamples_def)
next
  case (Cons b blocks)
  obtain buffer f n where b: "b = (buffer, f, n)" by (cases b)
  let ?xs = "blockSamples buffer (triggerChannel m) n"
  let ?r = "sample_loop first 0 ?xs m"
  from Cons.prems b have f: "f = first" and c: "canDetect m buffer"
    and rest: "contiguous (first + int n) blocks" by simp_all
  have ps: "process_stream m buffer f n = ?r"
    using c f by (simp add: process_stream_canDetect)
  have cd: "\<forall>b \<in> set blocks. canDetect (fst ?r) (fst b)"
    using Cons.prems(1) by (simp add: canDetect_def sample_loop_frame)
  have "process_blocks (fst ?r) blocks = sample_loop (first + int n) 0 (runSamples (fst ?r) blocks) (fst ?r)"
    by (rule Cons.IH [OF cd rest])
  also have "runSamples (fst ?r) blocks = runSamples m blocks"
    by (rule runSamples_triggerChannel) (simp add: sample_loop_frame)
  also have "sample_loop (first + int n) 0 (runSamples m blocks) (fst ?r)
               = sample_loop first (0 + length ?xs) (runSamples m blocks) (fst ?r)"
    by (rule sample_loop_shift) simp
  finally have pb: "process_blocks (fst ?r) blocks
                      = sample_loop first (0 + length ?xs) (runSamples m blocks) (fst ?r)" .
  show ?case
    unfolding b
    by (simp add: prod_eq_iff blocks_Cons ps pb runSamples_Cons sample_loop_append split_def Let_def
          del: length_blockSamples)
qed

lemma blockSamples_whole:
  "n = length (buffer ! nat c) \<Longrightarrow> blockSamples buffer c n = buffer ! nat c"
  by (simp add: blockSamples_def map_nth)

section \<open>Event kinds, flat runs and the example run\<close>

lemma isKind_simps [simp]:
  "isOn (TTLEvent k n l) \<longleftrightarrow> k = TRIGGER_ON"
  "isOff (TTLEvent k n l) \<longleftrightarrow> k = TRIGGER_OFF"
  "isClear (TTLEvent k n l) \<longleftrightarrow> k = LINE_CLEAR"
  by (simp_all add: isOn_def isOff_def isClear_def)

lemma landmark_flat: "lastSample m = s \<Longrightarrow> landmark m s = None"
  by (simp add: landmark_def)

lemma flat_no_on:
  "lastSample m = s \<Longrightarrow> filter isOn (snd (sample_loop first i (replicate n s) m)) = []"
proof (induction n arbitrary: i m)
  case 0
  show ?case by simp
next
  case (Suc n)
  have "\<not> targetHit m s" using Suc.prems by (simp add: targetHit_def landmark_flat)
  moreover have "filter isOn (snd (sample_loop first (Suc i) (replicate n s)
                   (fst (process_sample first i s m)))) = []"
    by (rule Suc.IH) (simp add: process_sample_lastSample)
  ultimately show ?case
    by (simp add: loop_Cons process_sample_events)
qed

lemma exampleBlocks_guard: "\<forall>b \<in> set exampleBlocks. canDetect newSettings (fst b)"
  by (simp add: exampleBlocks_def canDetect_def newSettings_def)

lemma exampleBlocks_contiguous: "contiguous 0 exampleBlocks"
  by (simp add: exampleBlocks_def)

lemma exampleBlocks_end: "endOfRun 0 exampleBlocks = 2006"
  by (simp add: exampleBlocks_def)

lemma exampleBlocks_run:
  "process_blocks newSettings exampleBlocks =
     sample_loop 0 0 ([0.5, 0.3, - 0.1, 0.5, 0.3] @ replicate 2001 0.3) newSettings"
proof -
  have "process_blocks newSettings exampleBlocks
          = sample_loop 0 0 (runSamples newSettings exampleBlocks) newSettings"
    by (rule run_as_loop) (simp_all add: exampleBlocks_def canDetect_def newSettings_def)
  moreover have "runSamples newSettings exampleBlocks
                   = [0.5, 0.3, - 0.1, 0.5, 0.3] @ replicate 2001 0.3"
    by (simp add: runSamples_def exampleBlocks_def blockSamples_whole newSettings_def)
  ultimately show ?thesis by simp
qed


lemma example_prefix:
  "snd (sample_loop 0 0 [0.5, 0.3, - 0.1, 0.5, 0.3] newSettings)
     = [TTLEvent TRIGGER_ON 1 0, TTLEvent TRIGGER_ON 4 0]"
  "lastSample (fst (sample_loop 0 0 [0.5, 0.3, - 0.1, 0.5, 0.3] newSettings)) = 0.3"
  by (simp_all add: loop_Cons process_sample_events process_sample_frame process_sample_lastSample
          process_sample_outputLineChanged process_sample_currentPhase
          process_sample_wasTriggered process_sample_samplesSinceTrigger
          targetHit_def timedOut_def landmark_def newSettings_def)


lemma exampleBlocks_on:
  "filter isOn (snd (process_blocks newSettings exampleBlocks))
     = [TTLEvent TRIGGER_ON 1 0, TTLEvent TRIGGER_ON 4 0]"
proof -
  let ?p = "sample_loop 0 0 [0.5, 0.3, - 0.1, 0.5, 0.3] newSettings"
  have "snd (process_blocks newSettings exampleBlocks)
          = snd ?p @ snd (sample_loop 0 (0 + length [0.5, 0.3, - 0.1, 0.5, 0.3 :: real])
                            (replicate 2001 0.3) (fst ?p))"
    unfolding exampleBlocks_run sample_loop_append by (simp only: split_def Let_def snd_conv)
  moreover have "filter isOn (snd (sample_loop 0 (0 + length [0.5, 0.3, - 0.1, 0.5, 0.3 :: real])
                            (replicate 2001 0.3) (fst ?p))) = []"
    by (rule flat_no_on) (rule example_prefix(2))
  ultimately show ?thesis by (simp only: filter_append example_prefix(1)) simp
qed


section \<open>Line clears in blocks and runs\<close>

lemma process_sample_clear:
  "filter isClear (snd (process_sample first i s m)) =
     (if outputLineChanged m then [TTLEvent LINE_CLEAR (first + int i) (lastOutputLine m)] else [])"
  by (simp add: process_sample_events)

lemma loop_clear_none:
  "\<not> outputLineChanged m \<Longrightarrow> filter isClear (snd (sample_loop first i xs m)) = []"
proof (induction xs arbitrary: i m)
  case Nil
  show ?case by simp
next
  case (Cons s xs)
  have "filter isClear (snd (sample_loop first (Suc i) xs (fst (process_sample first i s m)))) = []"
    by (rule Cons.IH) (simp add: process_sample_outputLineChanged)
  with Cons.prems show ?case by (simp add: loop_Cons process_sample_clear)
qed

lemma loop_clear_one:
  assumes "outputLineChanged m"
  shows "filter isClear (snd (sample_loop first i (s # xs) m))
           = [TTLEvent LINE_CLEAR (first + int i) (lastOutputLine m)]"
proof -
  have "filter isClear (snd (sample_loop first (Suc i) xs (fst (process_sample first i s m)))) = []"
    by (rule loop_clear_none) (simp add: process_sample_outputLineChanged)
  with assms show ?thesis by (simp add: loop_Cons process_sample_clear)
qed

lemma loop_flag_after:
  "outputLineChanged (fst (sample_loop first i xs m)) = (xs = [] \<and> outputLineChanged m)"
proof (induction xs arbitrary: i m)
  case Nil
  show ?case by simp
next
  case (Cons s xs)
  show ?case by (simp add: loop_Cons Cons.IH process_sample_outputLineChanged)
qed

lemma endOfBlock_clear: "filter isClear (snd (endOfBlock m first)) = []"
  by (simp add: endOfBlock_eq)

lemma stream_clear_none:
  assumes "\<not> outputLineChanged m"
  shows "filter isClear (snd (process_stream m buffer first n)) = []"
    and "\<not> outputLineChanged (fst (process_stream m buffer first n))"
  using assms
  by (cases "canDetect m buffer";
      simp add: process_stream_canDetect process_stream_not_canDetect loop_clear_none
        loop_flag_after endOfBlock_clear endOfBlock_frame)+

lemma blockSamples_Cons:
  "0 < n \<Longrightarrow> \<exists>s xs. blockSamples buffer c n = s # xs"
  by (cases "blockSamples buffer c n") (auto dest: arg_cong [where f = length])

lemma stream_clear_one:
  assumes "outputLineChanged m" "runsLoop m (buffer, first, n)"
  shows "filter isClear (snd (process_stream m buffer first n))
           = [TTLEvent LINE_CLEAR first (lastOutputLine m)]"
    and "\<not> outputLineChanged (fst (process_stream m buffer first n))"
proof -
  from assms(2) have c: "canDetect m buffer" and n: "0 < n" by simp_all
  from blockSamples_Cons [OF n] obtain s xs
    where b: "blockSamples buffer (triggerChannel m) n = s # xs" by blast
  show "filter isClear (snd (process_stream m buffer first n))
           = [TTLEvent LINE_CLEAR first (lastOutputLine m)]"
    using loop_clear_one [OF assms(1), of first 0 s xs]
    by (simp add: process_stream_canDetect [OF c] b)
  show "\<not> outputLineChanged (fst (process_stream m buffer first n))"
    by (simp add: process_stream_canDetect [OF c] b loop_flag_after)
qed

lemma stream_clear_skip:
  assumes "\<not> runsLoop m (buffer, first, n)"
  shows "filter isClear (snd (process_stream m buffer first n)) = []"
    and "outputLineChanged (fst (process_stream m buffer first n)) = outputLineChanged m"
proof -
  from assms consider "\<not> canDetect m buffer" | "canDetect m buffer" "n = 0" by auto
  then have "filter isClear (snd (process_stream m buffer first n)) = []
     \<and> outputLineChanged (fst (process_stream m buffer first n)) = outputLineChanged m"
  proof cases
    case 1
    then show ?thesis
      by (simp add: process_stream_not_canDetect endOfBlock_clear endOfBlock_frame)
  next
    case 2
    then show ?thesis
      by (simp add: process_stream_canDetect blockSamples_def)
  qed
  then show "filter isClear (snd (process_stream m buffer first n)) = []"
    and "outputLineChanged (fst (process_stream m buffer first n)) = outputLineChanged m"
    by simp_all
qed

lemma runsLoop_process_stream:
  "runsLoop (fst (process_stream m buffer first n)) b = runsLoop m b"
  by (cases b) (simp add: canDetect_process_stream)

lemma blocks_clear_none:
  "\<not> outputLineChanged m \<Longrightarrow> filter isClear (snd (process_blocks m blocks)) = []"
proof (induction blocks arbitrary: m)
  case Nil
  show ?case by simp
next
  case (Cons b blocks)
  obtain buffer f n where b: "b = (buffer, f, n)" by (cases b)
  from stream_clear_none [OF Cons.prems, of buffer f n] Cons.IH
  show ?case unfolding b by (simp add: blocks_Cons)
qed

lemma blocks_clear_skip:
  "\<forall>b \<in> set blocks. \<not> runsLoop m b \<Longrightarrow>
     filter isClear (snd (process_blocks m blocks)) = []
     \<and> outputLineChanged (fst (process_blocks m blocks)) = outputLineChanged m
     \<and> lastOutputLine (fst (process_blocks m blocks)) = lastOutputLine m
     \<and> (\<forall>b. runsLoop (fst (process_blocks m blocks)) b = runsLoop m b)"
proof (induction blocks arbitrary: m)
  case Nil
  show ?case by simp
next
  case (Cons b blocks)
  obtain buffer f n where b: "b = (buffer, f, n)" by (cases b)
  let ?m1 = "fst (process_stream m buffer f n)"
  from Cons.prems b have skip: "\<not> runsLoop m (buffer, f, n)" by simp
  have rest: "\<forall>b \<in> set blocks. \<not> runsLoop ?m1 b"
    using Cons.prems by (simp add: runsLoop_process_stream)
  from Cons.IH [OF rest] stream_clear_skip [OF skip]
  show ?case unfolding b
    by (simp add: blocks_Cons runsLoop_process_stream process_stream_frame)
qed

lemma blocks_clear_first:
  assumes "outputLineChanged m" "\<forall>b \<in> set pre. \<not> runsLoop m b" "runsLoop m (buffer, first, n)"
  shows "filter isClear (snd (process_blocks m (pre @ (buffer, first, n) # post)))
           = [TTLEvent LINE_CLEAR first (lastOutputLine m)]"
  using assms
proof (induction pre arbitrary: m)
  case Nil
  from stream_clear_one [OF Nil(1,3)] show ?case
    by (simp add: blocks_Cons blocks_clear_none)
next
  case (Cons b pre)
  obtain buffer' f' n' where b: "b = (buffer', f', n')" by (cases b)
  let ?m1 = "fst (process_stream m buffer' f' n')"
  from Cons.prems b have skip: "\<not> runsLoop m (buffer', f', n')" by simp
  have 1: "outputLineChanged ?m1" using stream_clear_skip(2) [OF skip] Cons.prems(1) by simp
  have 2: "\<forall>b \<in> set pre. \<not> runsLoop ?m1 b"
    using Cons.prems(2) by (simp add: runsLoop_process_stream)
  have 3: "runsLoop ?m1 (buffer, first, n)"
    using Cons.prems(3) by (simp only: runsLoop_process_stream)
  from Cons.IH [OF 1 2 3] stream_clear_skip(1) [OF skip]
  show ?case unfolding b by (simp add: blocks_Cons process_stream_frame)
qed

lemma blocks_clear_cases:
  "filter isClear (snd (process_blocks m blocks)) = []
   \<or> (\<exists>n. filter isClear (snd (process_blocks m blocks)) = [TTLEvent LINE_CLEAR n (lastOutputLine m)])"
proof (cases "outputLineChanged m \<and> (\<exists>b \<in> set blocks. runsLoop m b)")
  case True
  then obtain pre b post where s: "blocks = pre @ b # post" "runsLoop m b"
    "\<forall>x \<in> set pre. \<not> runsLoop m x"
    using split_list_first_prop [of blocks "runsLoop m"] by blast
  obtain buffer f n where b: "b = (buffer, f, n)" by (cases b)
  from True s b blocks_clear_first [of m pre buffer f n post] show ?thesis by simp
next
  case False
  then show ?thesis using blocks_clear_none [of m blocks] blocks_clear_skip [of blocks m] by blast
qed

section \<open>Landmarks along a run\<close>

lemma landmark_guard: "landmark m s = Some L \<Longrightarrow> currentPhase m \<noteq> phaseOf L"
  by (auto simp add: landmark_def split: if_splits)

lemma detect_phase:
  "currentPhase (fst (detect sn s m)) =
     (case landmark m s of None \<Rightarrow> currentPhase m | Some L \<Rightarrow> phaseOf L)"
  by (simp add: detect_eq targetHit_def split: option.splits)

lemma detect_events:
  "snd (detect sn s m) =
     (if landmark m s = Some (detectorType m) then [TTLEvent TRIGGER_ON sn (outputLine m)] else [])"
  by (simp add: detect_eq targetHit_def)

lemma phaseOf_inj: "phaseOf L = phaseOf L' \<Longrightarrow> L = L'"
  by (cases L; cases L'; simp)

lemma seen_Cons:
  "landmarksSeen first i (s # xs) m =
     (case landmark m s of None \<Rightarrow> [] | Some L \<Rightarrow> [L])
     @ landmarksSeen first (Suc i) xs (fst (process_sample first i s m))"
  by simp

lemma seen_hd:
  "currentPhase m = phaseOf L \<Longrightarrow> landmarksSeen first i xs m = L' # r \<Longrightarrow> L' \<noteq> L"
proof (induction xs arbitrary: i m)
  case Nil
  then show ?case by simp
next
  case (Cons s xs)
  show ?case
  proof (cases "landmark m s")
    case None
    then have "currentPhase (fst (process_sample first i s m)) = phaseOf L"
      using Cons.prems(1) by (simp add: process_sample_currentPhase)
    moreover have "landmarksSeen first (Suc i) xs (fst (process_sample first i s m)) = L' # r"
      using Cons.prems(2) None by simp
    ultimately show ?thesis by (rule Cons.IH)
  next
    case (Some L'')
    with Cons.prems(2) have "L'' = L'" by simp
    with landmark_guard [OF Some] Cons.prems(1) show ?thesis by auto
  qed
qed

lemma seen_adj: "distinct_adj (landmarksSeen first i xs m)"
proof (induction xs arbitrary: i m)
  case Nil
  show ?case by simp
next
  case (Cons s xs)
  let ?m1 = "fst (process_sample first i s m)"
  show ?case
  proof (cases "landmark m s")
    case None
    then show ?thesis using Cons.IH [of "Suc i" ?m1] by simp
  next
    case (Some L)
    have p: "currentPhase ?m1 = phaseOf L" using Some by (simp add: process_sample_currentPhase)
    show ?thesis
    proof (cases "landmarksSeen first (Suc i) xs ?m1")
      case Nil
      then show ?thesis using Some by simp
    next
      case (Cons L' r)
      from seen_hd [OF p Cons] have "L' \<noteq> L" .
      then show ?thesis using Some Cons Cons.IH [of "Suc i" ?m1] by simp
    qed
  qed
qed

lemma adj_single:
  assumes "distinct_adj xs" "set xs \<subseteq> {a}"
  shows "length xs \<le> 1"
proof (cases xs)
  case Nil
  then show ?thesis by simp
next
  case (Cons x ys)
  show ?thesis
  proof (cases ys)
    case Nil
    with Cons show ?thesis by simp
  next
    case (Cons y zs)
    with \<open>xs = x # ys\<close> assms have "x \<noteq> y" "x = a" "y = a" by simp_all
    then show ?thesis by simp
  qed
qed

lemma on_count:
  "length (filter isOn (snd (sample_loop first i xs m)))
     = length (filter (\<lambda>L. L = detectorType m) (landmarksSeen first i xs m))"
proof (induction xs arbitrary: i m)
  case Nil
  show ?case by simp
next
  case (Cons s xs)
  have "detectorType (fst (process_sample first i s m)) = detectorType m"
    by (simp add: process_sample_frame)
  with Cons.IH [of "Suc i" "fst (process_sample first i s m)"] show ?case
    by (auto simp add: loop_Cons process_sample_events targetHit_def split: option.splits)
qed


section \<open>The order of the events\<close>

lemma process_sample_sorted: "sorted_wrt before (snd (process_sample first i s m))"
  by (simp add: process_sample_events before_def timedOut_def)

lemma sample_loop_sorted: "sorted_wrt before (snd (sample_loop first i xs m))"
proof (induction xs arbitrary: i m)
  case Nil
  show ?case by simp
next
  case (Cons s xs)
  let ?m1 = "fst (process_sample first i s m)"
  have "before x y" if "x \<in> set (snd (process_sample first i s m))"
    "y \<in> set (snd (sample_loop first (Suc i) xs ?m1))" for x y
    using process_sample_sample_number [OF that(1)] sample_loop_sample_number [OF that(2)]
    by (simp add: before_def)
  then show ?case
    by (simp add: loop_Cons sorted_wrt_append process_sample_sorted Cons.IH)
qed

lemma before_le: "before a b \<Longrightarrow> sample_number a \<le> sample_number b"
  by (auto simp add: before_def)

lemma process_stream_sorted: "sorted_wrt before (snd (process_stream m buffer first n))"
  by (cases "canDetect m buffer")
     (simp_all add: process_stream_canDetect process_stream_not_canDetect sample_loop_sorted
        endOfBlock_eq)

lemma process_stream_same_samples:
  assumes "length buffer' = length buffer"
    and "blockSamples buffer' (triggerChannel m) n = blockSamples buffer (triggerChannel m) n"
  shows "process_stream m buffer' first n = process_stream m buffer first n"
proof -
  have "canDetect m buffer' = canDetect m buffer" using assms(1) by (simp add: canDetect_def)
  then show ?thesis using assms(2) by (simp add: process_stream_def guardedLoop_def)
qed

section \<open>The trough scenario\<close>

text \<open>
  Claim C1. The block \<open>[0.5, 0.3, -0.1, -0.4, -0.2, 0.1]\<close> on a valid trigger channel, with
  the trough as target, an active detector, output line 3, and a state with
  \<open>lastSample = 0\<close>, no phase and no pulse pending: the block emits exactly one on-event,
  at the fifth sample (offset 4, where \<open>-0.4\<close> turns to \<open>-0.2\<close>), on line 3, and no
  off-event. The only other event possible is the clearing of a replaced output line at the
  first sample, when a change of the output line is pending.
\<close>

theorem trough_scenario:
  assumes "isActive m" "outputLine m = 3"
    and "0 \<le> triggerChannel m" "triggerChannel m < int (length buffer)"
    and "buffer ! nat (triggerChannel m) = [0.5, 0.3, - 0.1, - 0.4, - 0.2, 0.1]"
    and "detectorType m = TROUGH"
    and "lastSample m = 0" "currentPhase m = NO_PHASE" "\<not> wasTriggered m"
  shows "snd (process_stream m buffer first 6) =
           (if outputLineChanged m then [TTLEvent LINE_CLEAR first (lastOutputLine m)] else [])
           @ [TTLEvent TRIGGER_ON (first + 4) 3]
       \<and> filter isOn (snd (process_stream m buffer first 6)) = [TTLEvent TRIGGER_ON (first + 4) 3]
       \<and> filter isOff (snd (process_stream m buffer first 6)) = []"
proof -
  have c: "canDetect m buffer" using assms by (simp add: canDetect_def)
  have b: "blockSamples buffer (triggerChannel m) 6 = [0.5, 0.3, - 0.1, - 0.4, - 0.2, 0.1]"
    using assms(5) by (simp add: blockSamples_whole)
  have "snd (sample_loop first 0 [0.5, 0.3, - 0.1, - 0.4, - 0.2, 0.1] m) =
           (if outputLineChanged m then [TTLEvent LINE_CLEAR first (lastOutputLine m)] else [])
           @ [TTLEvent TRIGGER_ON (first + 4) 3]"
    using assms
    by (simp add: loop_Cons process_sample_events process_sample_frame process_sample_lastSample
          process_sample_outputLineChanged process_sample_currentPhase
          process_sample_wasTriggered process_sample_samplesSinceTrigger
          targetHit_def timedOut_def landmark_def)
  then show ?thesis
    by (simp add: process_stream_canDetect [OF c] b isOn_def isOff_def)
qed

theorem trough_scenario_witness:
  "snd (process_stream (newSettings\<lparr>outputLine := 3, detectorType := TROUGH\<rparr>)
         [[0.5, 0.3, - 0.1, - 0.4, - 0.2, 0.1]] 100 6) = [TTLEvent TRIGGER_ON 104 3]"
  using trough_scenario [of "newSettings\<lparr>outputLine := 3, detectorType := TROUGH\<rparr>"
                            "[[0.5, 0.3, - 0.1, - 0.4, - 0.2, 0.1]]" 100]
  by (simp add: newSettings_def)

section \<open>Runs under the guard\<close>

lemma run_pulse_off:
  assumes guard: "\<forall>b \<in> set blocks. canDetect m (fst b)"
    and cont: "contiguous first blocks"
    and on: "TTLEvent TRIGGER_ON K l \<in> set (snd (process_blocks m blocks))"
    and quiet: "\<forall>e \<in> set (snd (process_blocks m blocks)).
                  isOn e \<longrightarrow> \<not> (K < sample_number e \<and> sample_number e \<le> K + 2001)"
    and long: "K + 2001 < endOfRun first blocks"
  shows "TTLEvent TRIGGER_OFF (K + 2001) l \<in> set (snd (process_blocks m blocks))
       \<and> l = outputLine m
       \<and> (\<forall>e \<in> set (snd (process_blocks m blocks)).
            isOff e \<longrightarrow> \<not> (K \<le> sample_number e \<and> sample_number e < K + 2001))"
proof -
  let ?e = "TTLEvent TRIGGER_ON K l"
  let ?xs = "runSamples m blocks"
  have run: "process_blocks m blocks = sample_loop first 0 ?xs m"
    by (rule run_as_loop [OF guard cont])
  have e: "?e \<in> set (snd (sample_loop first 0 ?xs m))" "isOn ?e"
    using on by (simp_all add: run)
  have l: "l = outputLine m" using loop_on_line [OF e] by simp
  have len: "sample_number ?e + 2001 < first + int 0 + int (length ?xs)"
    using long by (simp add: endOfRun_runSamples [of first blocks m])
  have q: "\<forall>e' \<in> set (snd (sample_loop first 0 ?xs m)).
             isOn e' \<longrightarrow> \<not> (sample_number ?e < sample_number e' \<and> sample_number e' \<le> sample_number ?e + 2001)"
    using quiet by (simp add: run)
  have off: "TTLEvent TRIGGER_OFF (sample_number ?e + 2001) (outputLine m)
          \<in> set (snd (sample_loop first 0 ?xs m))"
    by (rule loop_on_off [OF e len q])
  have nooff: "\<not> (K \<le> sample_number e' \<and> sample_number e' < K + 2001)"
    if "e' \<in> set (snd (sample_loop first 0 ?xs m))" "isOff e'" for e'
    using loop_on_quiet [OF e that] by simp
  from off have "TTLEvent TRIGGER_OFF (K + 2001) l \<in> set (snd (process_blocks m blocks))"
    by (simp add: run l)
  moreover from nooff have "\<forall>e \<in> set (snd (process_blocks m blocks)).
            isOff e \<longrightarrow> \<not> (K \<le> sample_number e \<and> sample_number e < K + 2001)"
    unfolding run by blast
  ultimately show ?thesis using l by blast
qed

lemma run_on_line:
  assumes "\<forall>b \<in> set blocks. canDetect m (fst b)" "contiguous first blocks"
    and "e \<in> set (snd (process_blocks m blocks))" "isOn e"
  shows "line e = outputLine m"
  using assms(3,4) unfolding run_as_loop [OF assms(1,2)] by (rule loop_on_line)

lemma run_on_quiet:
  assumes "\<forall>b \<in> set blocks. canDetect m (fst b)" "contiguous first blocks"
    and "e \<in> set (snd (process_blocks m blocks))" "isOn e"
    and "e' \<in> set (snd (process_blocks m blocks))" "isOff e'"
  shows "\<not> (sample_number e \<le> sample_number e' \<and> sample_number e' < sample_number e + 2001)"
  using assms(3-6) unfolding run_as_loop [OF assms(1,2)] by (rule loop_on_quiet)

lemma retrigger_step:
  assumes "wasTriggered w" "targetHit w s"
  shows "detect sn s w =
           (w\<lparr>samplesSinceTrigger := 0, wasTriggered := True,
               currentPhase := phaseOf (detectorType w)\<rparr>,
            [TTLEvent TRIGGER_ON sn (outputLine w)])"
    and "filter isOn (snd (process_sample f i s w)) = [TTLEvent TRIGGER_ON (f + int i) (outputLine w)]"
    and "filter isOff (snd (process_sample f i s w)) = []"
    and "wasTriggered (fst (process_sample f i s w))"
    and "samplesSinceTrigger (fst (process_sample f i s w)) = 1"
  using assms
  by (simp_all add: detect_eq process_sample_events process_sample_wasTriggered
        process_sample_samplesSinceTrigger timedOut_def)

lemma exampleBlocks_set_on:
  assumes "e \<in> set (snd (process_blocks newSettings exampleBlocks))" "isOn e"
  shows "e = TTLEvent TRIGGER_ON 1 0 \<or> e = TTLEvent TRIGGER_ON 4 0"
proof -
  from assms have "e \<in> set (filter isOn (snd (process_blocks newSettings exampleBlocks)))"
    by simp
  then show ?thesis by (simp only: exampleBlocks_on) simp
qed

lemma exampleBlocks_has_on:
  "TTLEvent TRIGGER_ON 1 0 \<in> set (snd (process_blocks newSettings exampleBlocks))"
  "TTLEvent TRIGGER_ON 4 0 \<in> set (snd (process_blocks newSettings exampleBlocks))"
proof -
  have "set (filter isOn (snd (process_blocks newSettings exampleBlocks)))
          \<subseteq> set (snd (process_blocks newSettings exampleBlocks))"
    by (rule filter_is_subset)
  then show "TTLEvent TRIGGER_ON 1 0 \<in> set (snd (process_blocks newSettings exampleBlocks))"
    "TTLEvent TRIGGER_ON 4 0 \<in> set (snd (process_blocks newSettings exampleBlocks))"
    by (simp_all only: exampleBlocks_on) simp_all
qed


section \<open>Runs with reconfigurations and gate events\<close>

lemma loop_events_Cons:
  "x \<in> set (snd (sample_loop first i (s # xs) m)) \<longleftrightarrow>
     x \<in> set (snd (process_sample first i s m))
     \<or> x \<in> set (snd (sample_loop first (Suc i) xs (fst (process_sample first i s m))))"
  by (auto simp add: loop_Cons)

lemma loop_count:
  assumes "wasTriggered m" "samplesSinceTrigger m + int (length xs) \<le> 2001"
    and "\<forall>e \<in> set (snd (sample_loop first i xs m)). \<not> isOn e"
  shows "wasTriggered (fst (sample_loop first i xs m))
       \<and> samplesSinceTrigger (fst (sample_loop first i xs m))
           = samplesSinceTrigger m + int (length xs)
       \<and> (\<forall>e \<in> set (snd (sample_loop first i xs m)). \<not> isOff e)"
  using assms
proof (induction xs arbitrary: i m)
  case Nil
  then show ?case by simp
next
  case (Cons s xs)
  let ?m1 = "fst (process_sample first i s m)"
  have nohit: "\<not> targetHit m s"
  proof
    assume "targetHit m s"
    then have "TTLEvent TRIGGER_ON (first + int i) (outputLine m)
                 \<in> set (snd (sample_loop first i (s # xs) m))"
      by (simp add: loop_events_Cons process_sample_events)
    with Cons.prems(3) show False by fastforce
  qed
  have small: "samplesSinceTrigger m \<le> 2000" using Cons.prems(2) by simp
  have w: "wasTriggered ?m1" using Cons.prems(1) small by (simp add: process_sample_wasTriggered)
  have c: "samplesSinceTrigger ?m1 = samplesSinceTrigger m + 1"
    using Cons.prems(1) small nohit by (simp add: process_sample_samplesSinceTrigger)
  have b: "samplesSinceTrigger ?m1 + int (length xs) \<le> 2001" using c Cons.prems(2) by simp
  have q: "\<forall>e \<in> set (snd (sample_loop first (Suc i) xs ?m1)). \<not> isOn e"
    using Cons.prems(3) by (simp add: loop_events_Cons)
  have step: "\<forall>e \<in> set (snd (process_sample first i s m)). \<not> isOff e"
    using nohit small by (simp add: process_sample_events timedOut_def)
  from Cons.IH [OF w b q] c step show ?case
    by (simp add: loop_Cons ball_Un)
qed

lemma loop_on_count:
  assumes "e \<in> set (snd (sample_loop first i xs m))" "isOn e"
    and "\<forall>e' \<in> set (snd (sample_loop first i xs m)). isOn e' \<longrightarrow> sample_number e' \<le> sample_number e"
    and "first + int i + int (length xs) \<le> sample_number e + 2001"
  shows "wasTriggered (fst (sample_loop first i xs m))
       \<and> samplesSinceTrigger (fst (sample_loop first i xs m))
           = first + int i + int (length xs) - sample_number e"
  using assms
proof (induction xs arbitrary: i m)
  case Nil
  then show ?case by simp
next
  case (Cons s xs)
  let ?m1 = "fst (process_sample first i s m)"
  let ?step = "set (snd (process_sample first i s m))"
  let ?rest = "set (snd (sample_loop first (Suc i) xs ?m1))"
  from Cons.prems(1) consider "e \<in> ?step" | "e \<in> ?rest" by (auto simp add: loop_events_Cons)
  then show ?case
  proof cases
    case 1
    from process_sample_on [OF 1 Cons.prems(2)]
    have hit: "targetHit m s" and K: "sample_number e = first + int i" by simp_all
    have w: "wasTriggered ?m1" using hit by (simp add: process_sample_wasTriggered)
    have c: "samplesSinceTrigger ?m1 = 1"
      using hit by (simp add: process_sample_samplesSinceTrigger)
    have b: "samplesSinceTrigger ?m1 + int (length xs) \<le> 2001"
      using c Cons.prems(4) K by simp
    have q: "\<forall>x \<in> ?rest. \<not> isOn x"
    proof
      fix x assume x: "x \<in> ?rest"
      show "\<not> isOn x"
      proof
        assume "isOn x"
        with x Cons.prems(3) have "sample_number x \<le> sample_number e"
          by (simp add: loop_events_Cons)
        with sample_loop_sample_number [OF x] K show False by simp
      qed
    qed
    from loop_count [OF w b q] c K show ?thesis by (simp add: loop_Cons)
  next
    case 2
    have q: "\<forall>e' \<in> ?rest. isOn e' \<longrightarrow> sample_number e' \<le> sample_number e"
      using Cons.prems(3) by (simp add: loop_events_Cons)
    have l: "first + int (Suc i) + int (length xs) \<le> sample_number e + 2001"
      using Cons.prems(4) by simp
    from Cons.IH [OF 2 Cons.prems(2) q l] show ?thesis by (simp add: loop_Cons)
  qed
qed

lemma loop_off_line:
  "e \<in> set (snd (sample_loop first i xs m)) \<Longrightarrow> isOff e \<Longrightarrow> line e = outputLine m"
proof (induction xs arbitrary: i m)
  case Nil
  then show ?case by simp
next
  case (Cons s xs)
  from Cons.prems(1)
  consider "e \<in> set (snd (process_sample first i s m))"
    | "e \<in> set (snd (sample_loop first (Suc i) xs (fst (process_sample first i s m))))"
    by (auto simp add: loop_events_Cons)
  then show ?case
  proof cases
    case 1
    from process_sample_off [OF 1 Cons.prems(2)] show ?thesis by simp
  next
    case 2
    from Cons.IH [OF 2 Cons.prems(2)] show ?thesis by (simp add: process_sample_frame)
  qed
qed

lemma run_Block_fst:
  "fst (process_run g m (Block buffer first n # rest)) =
     fst (process_run g (fst (process_stream m buffer first n)) rest)"
  by (simp add: split_def Let_def)

lemma run_Block_snd:
  "snd (process_run g m (Block buffer first n # rest)) =
     snd (process_stream m buffer first n)
     @ snd (process_run g (fst (process_stream m buffer first n)) rest)"
  by (simp add: split_def Let_def)

declare process_run.simps(2) [simp del]

lemmas run_Block = run_Block_fst run_Block_snd

lemma reconfigure_pulse:
  "wasTriggered (parameterValueChanged g q m) = wasTriggered m"
  "samplesSinceTrigger (parameterValueChanged g q m) = samplesSinceTrigger m"
  by (cases q; simp add: Let_def split: list.splits)+

lemma handleTTLEvent_pulse:
  "wasTriggered (handleTTLEvent w l s m) = wasTriggered m"
  "samplesSinceTrigger (handleTTLEvent w l s m) = samplesSinceTrigger m"
  by (simp_all add: handleTTLEvent_def Let_def)

lemma endOfItems_ge: "p \<le> endOfItems p items"
proof (induction items arbitrary: p)
  case Nil
  show ?case by simp
next
  case (Cons x items)
  show ?case
  proof (cases x)
    case (Block buffer f n)
    with Cons.IH [of "p + int n"] show ?thesis by simp
  next
    case (Reconfigure q)
    with Cons.IH [of p] show ?thesis by simp
  next
    case (TTLInput w l s)
    with Cons.IH [of p] show ?thesis by simp
  qed
qed

lemma run_sample_number:
  "runUnderGuard g m items \<Longrightarrow> contiguousRun p items \<Longrightarrow>
   e \<in> set (snd (process_run g m items)) \<Longrightarrow>
     p \<le> sample_number e \<and> sample_number e < endOfItems p items"
proof (induction items arbitrary: m p)
  case Nil
  then show ?case by simp
next
  case (Cons x items)
  show ?case
  proof (cases x)
    case (Block buffer f n)
    let ?m1 = "fst (process_stream m buffer f n)"
    from Cons.prems Block have c: "canDetect m buffer" and f: "f = p"
      and g1: "runUnderGuard g ?m1 items" and c1: "contiguousRun (p + int n) items"
      by simp_all
    from Cons.prems(3) Block
    consider "e \<in> set (snd (process_stream m buffer f n))"
      | "e \<in> set (snd (process_run g ?m1 items))"
      by (auto simp add: run_Block)
    then show ?thesis
    proof cases
      case 1
      then have "e \<in> set (snd (sample_loop p 0 (blockSamples buffer (triggerChannel m) n) m))"
        using c f by (simp add: process_stream_canDetect)
      from sample_loop_sample_number [OF this] endOfItems_ge [of "p + int n" items]
      show ?thesis using Block by simp
    next
      case 2
      from Cons.IH [OF g1 c1 2] show ?thesis using Block by simp
    qed
  next
    case (Reconfigure q)
    with Cons.prems Cons.IH [of "parameterValueChanged g q m" p] show ?thesis by simp
  next
    case (TTLInput w l s)
    with Cons.prems Cons.IH [of "handleTTLEvent w l s m" p] show ?thesis by simp
  qed
qed

lemma run_count:
  "runUnderGuard g m items \<Longrightarrow> contiguousRun p items \<Longrightarrow>
   wasTriggered m \<Longrightarrow> samplesSinceTrigger m = p - K \<Longrightarrow>
   endOfItems p items \<le> K + 2001 \<Longrightarrow>
   \<forall>e \<in> set (snd (process_run g m items)). \<not> isOn e \<Longrightarrow>
     wasTriggered (fst (process_run g m items))
     \<and> samplesSinceTrigger (fst (process_run g m items)) = endOfItems p items - K
     \<and> (\<forall>e \<in> set (snd (process_run g m items)). \<not> isOff e)"
proof (induction items arbitrary: m p)
  case Nil
  then show ?case by simp
next
  case (Cons x items)
  show ?case
  proof (cases x)
    case (Block buffer f n)
    let ?xs = "blockSamples buffer (triggerChannel m) n"
    let ?r = "sample_loop p 0 ?xs m"
    from Cons.prems Block have c: "canDetect m buffer" and f: "f = p" by simp_all
    have ps: "process_stream m buffer f n = ?r" using c f by (simp add: process_stream_canDetect)
    from Cons.prems(1,2) Block have g1: "runUnderGuard g (fst ?r) items"
      and c1: "contiguousRun (p + int n) items" by (simp_all add: ps)
    have e1: "endOfItems (p + int n) items \<le> K + 2001" using Cons.prems(5) Block by simp
    have "p + int n \<le> K + 2001" using e1 endOfItems_ge [of "p + int n" items] by simp
    then have b: "samplesSinceTrigger m + int (length ?xs) \<le> 2001"
      using Cons.prems(4) by simp
    have q: "\<forall>e \<in> set (snd ?r). \<not> isOn e"
      using Cons.prems(6) Block by (simp add: run_Block ps)
    note lc = loop_count [OF Cons.prems(3) b q]
    have q1: "\<forall>e \<in> set (snd (process_run g (fst ?r) items)). \<not> isOn e"
      using Cons.prems(6) Block by (simp add: run_Block ps)
    have s1: "samplesSinceTrigger (fst ?r) = p + int n - K"
      using lc Cons.prems(4) by simp
    from Cons.IH [OF g1 c1 _ s1 e1 q1] lc show ?thesis
      using Block by (simp add: run_Block ps ball_Un)
  next
    case (Reconfigure q)
    with Cons.prems Cons.IH [of "parameterValueChanged g q m" p] show ?thesis
      by (simp add: reconfigure_pulse)
  next
    case (TTLInput w l s)
    with Cons.prems Cons.IH [of "handleTTLEvent w l s m" p] show ?thesis
      by (simp add: handleTTLEvent_pulse)
  qed
qed

lemma run_deadline:
  "runUnderGuard g m items \<Longrightarrow> contiguousRun p items \<Longrightarrow>
   wasTriggered m \<Longrightarrow> samplesSinceTrigger m = p - K \<Longrightarrow> K < p \<Longrightarrow> p \<le> K + 2001 \<Longrightarrow>
   K + 2001 < endOfItems p items \<Longrightarrow>
   \<forall>e \<in> set (snd (process_run g m items)).
      isOn e \<longrightarrow> \<not> (K < sample_number e \<and> sample_number e \<le> K + 2001) \<Longrightarrow>
     TTLEvent TRIGGER_OFF (K + 2001) (outputLineAt g m items (K + 2001))
       \<in> set (snd (process_run g m items))
     \<and> (\<forall>e \<in> set (snd (process_run g m items)). isOff e \<longrightarrow> K + 2001 \<le> sample_number e)"
proof (induction items arbitrary: m p)
  case Nil
  then show ?case by simp
next
  case (Cons x items)
  show ?case
  proof (cases x)
    case (Block buffer f n)
    let ?xs = "blockSamples buffer (triggerChannel m) n"
    let ?r = "sample_loop p 0 ?xs m"
    let ?es1 = "set (snd ?r)"
    let ?es2 = "set (snd (process_run g (fst ?r) items))"
    from Cons.prems Block have c: "canDetect m buffer" and f: "f = p" by simp_all
    have ps: "process_stream m buffer f n = ?r" using c f by (simp add: process_stream_canDetect)
    from Cons.prems(1,2) Block have g1: "runUnderGuard g (fst ?r) items"
      and c1: "contiguousRun (p + int n) items" by (simp_all add: ps)
    have es: "set (snd (process_run g m (x # items))) = ?es1 \<union> ?es2"
      using Block by (simp add: run_Block ps)
    have quiet1: "\<not> isOn e" if "e \<in> ?es1" "sample_number e \<le> K + 2001" for e
    proof
      assume "isOn e"
      with that(1) Cons.prems(8) es
      have "\<not> (K < sample_number e \<and> sample_number e \<le> K + 2001)" by blast
      with sample_loop_sample_number [OF that(1)] that(2) Cons.prems(5) show False by simp
    qed
    have quiet2: "\<forall>e \<in> ?es2. isOn e \<longrightarrow> \<not> (K < sample_number e \<and> sample_number e \<le> K + 2001)"
      using Cons.prems(8) es by blast
    show ?thesis
    proof (cases "K + 2001 < p + int n")
      case True
      define d where "d = nat (K + 2001 - p)"
      have d: "int d = K + 2001 - p" using Cons.prems(6) by (simp add: d_def)
      have s: "samplesSinceTrigger m = 2001 - int d" using Cons.prems(4) d by simp
      have l: "d < length ?xs" using True d by simp
      have q: "\<forall>e \<in> ?es1. isOn e \<longrightarrow> p + int 0 + int d < sample_number e"
        using quiet1 d by fastforce
      from off_at [OF Cons.prems(3) s l q] d
      have "TTLEvent TRIGGER_OFF (K + 2001) (outputLine m) \<in> ?es1" by simp
      then have 1: "TTLEvent TRIGGER_OFF (K + 2001) (outputLineAt g m (x # items) (K + 2001))
                      \<in> set (snd (process_run g m (x # items)))"
        using es Block f True by simp
      have 2: "K + 2001 \<le> sample_number e"
        if "e \<in> set (snd (process_run g m (x # items)))" "isOff e" for e
      proof -
        from that(1) es consider "e \<in> ?es1" | "e \<in> ?es2" by blast
        then show ?thesis
        proof cases
          case 1
          have "p + int 0 + int d \<le> sample_number e"
            by (rule no_off_before [OF Cons.prems(3) _ _ 1 that(2)])
               (use s Cons.prems(5) d in simp_all)
          with d show ?thesis by simp
        next
          case 2
          from run_sample_number [OF g1 c1 2] True show ?thesis by simp
        qed
      qed
      from 1 2 show ?thesis by blast
    next
      case False
      then have le: "p + int n \<le> K + 2001" by simp
      have b: "samplesSinceTrigger m + int (length ?xs) \<le> 2001"
        using Cons.prems(4) le by simp
      have q: "\<forall>e \<in> ?es1. \<not> isOn e"
      proof
        fix e assume e: "e \<in> ?es1"
        from sample_loop_sample_number [OF e] le have "sample_number e \<le> K + 2001" by simp
        with e show "\<not> isOn e" by (rule quiet1)
      qed
      note lc = loop_count [OF Cons.prems(3) b q]
      have w1: "wasTriggered (fst ?r)" using lc by simp
      have s1: "samplesSinceTrigger (fst ?r) = p + int n - K" using lc Cons.prems(4) by simp
      have k1: "K < p + int n" using Cons.prems(5) by simp
      have e1: "K + 2001 < endOfItems (p + int n) items" using Cons.prems(7) Block by simp
      note ih = Cons.IH [OF g1 c1 w1 s1 k1 le e1 quiet2]
      have 1: "TTLEvent TRIGGER_OFF (K + 2001) (outputLineAt g m (x # items) (K + 2001))
                      \<in> set (snd (process_run g m (x # items)))"
        using ih es Block f False ps by simp
      have 2: "K + 2001 \<le> sample_number e"
        if "e \<in> set (snd (process_run g m (x # items)))" "isOff e" for e
        using that es lc ih by blast
      from 1 2 show ?thesis by blast
    qed
  next
    case (Reconfigure q)
    with Cons.prems Cons.IH [of "parameterValueChanged g q m" p] show ?thesis
      by (simp add: reconfigure_pulse)
  next
    case (TTLInput w l s)
    with Cons.prems Cons.IH [of "handleTTLEvent w l s m" p] show ?thesis
      by (simp add: handleTTLEvent_pulse)
  qed
qed

lemma run_on_count:
  "runUnderGuard g m items \<Longrightarrow> contiguousRun p items \<Longrightarrow>
   e \<in> set (snd (process_run g m items)) \<Longrightarrow> isOn e \<Longrightarrow>
   \<forall>e' \<in> set (snd (process_run g m items)). isOn e' \<longrightarrow> sample_number e' \<le> sample_number e \<Longrightarrow>
   endOfItems p items \<le> sample_number e + 2001 \<Longrightarrow>
     wasTriggered (fst (process_run g m items))
     \<and> samplesSinceTrigger (fst (process_run g m items)) = endOfItems p items - sample_number e"
proof (induction items arbitrary: m p)
  case Nil
  then show ?case by simp
next
  case (Cons x items)
  show ?case
  proof (cases x)
    case (Block buffer f n)
    let ?xs = "blockSamples buffer (triggerChannel m) n"
    let ?r = "sample_loop p 0 ?xs m"
    let ?es1 = "set (snd ?r)"
    let ?es2 = "set (snd (process_run g (fst ?r) items))"
    from Cons.prems Block have c: "canDetect m buffer" and f: "f = p" by simp_all
    have ps: "process_stream m buffer f n = ?r" using c f by (simp add: process_stream_canDetect)
    from Cons.prems(1,2) Block have g1: "runUnderGuard g (fst ?r) items"
      and c1: "contiguousRun (p + int n) items" by (simp_all add: ps)
    have es: "set (snd (process_run g m (x # items))) = ?es1 \<union> ?es2"
      using Block by (simp add: run_Block ps)
    have e1: "endOfItems (p + int n) items \<le> sample_number e + 2001"
      using Cons.prems(6) Block by simp
    have last2: "\<forall>e' \<in> ?es2. isOn e' \<longrightarrow> sample_number e' \<le> sample_number e"
      using Cons.prems(5) es by blast
    from Cons.prems(3) es consider "e \<in> ?es1" | "e \<in> ?es2" by blast
    then show ?thesis
    proof cases
      case 1
      have last1: "\<forall>e' \<in> ?es1. isOn e' \<longrightarrow> sample_number e' \<le> sample_number e"
        using Cons.prems(5) es by blast
      have l: "p + int 0 + int (length ?xs) \<le> sample_number e + 2001"
        using e1 endOfItems_ge [of "p + int n" items] by simp
      note oc = loop_on_count [OF 1 Cons.prems(4) last1 l]
      have w1: "wasTriggered (fst ?r)" using oc by simp
      have s1: "samplesSinceTrigger (fst ?r) = p + int n - sample_number e" using oc by simp
      have q: "\<forall>e' \<in> ?es2. \<not> isOn e'"
      proof
        fix e' assume e': "e' \<in> ?es2"
        show "\<not> isOn e'"
        proof
          assume "isOn e'"
          with last2 e' have "sample_number e' \<le> sample_number e" by blast
          with run_sample_number [OF g1 c1 e'] sample_loop_sample_number [OF 1]
          show False by simp
        qed
      qed
      from run_count [OF g1 c1 w1 s1 e1 q] show ?thesis
        using Block by (simp add: run_Block ps)
    next
      case 2
      from Cons.IH [OF g1 c1 2 Cons.prems(4) last2 e1] show ?thesis
        using Block by (simp add: run_Block ps)
    qed
  next
    case (Reconfigure q)
    with Cons.prems Cons.IH [of "parameterValueChanged g q m" p] show ?thesis by simp
  next
    case (TTLInput w l s)
    with Cons.prems Cons.IH [of "handleTTLEvent w l s m" p] show ?thesis by simp
  qed
qed

lemma run_on_deadline:
  "runUnderGuard g m items \<Longrightarrow> contiguousRun p items \<Longrightarrow>
   e \<in> set (snd (process_run g m items)) \<Longrightarrow> isOn e \<Longrightarrow>
   \<forall>e' \<in> set (snd (process_run g m items)).
      isOn e' \<longrightarrow> \<not> (sample_number e < sample_number e' \<and> sample_number e' \<le> sample_number e + 2001) \<Longrightarrow>
   sample_number e + 2001 < endOfItems p items \<Longrightarrow>
     line e = outputLineAt g m items (sample_number e)
     \<and> TTLEvent TRIGGER_OFF (sample_number e + 2001)
          (outputLineAt g m items (sample_number e + 2001))
         \<in> set (snd (process_run g m items))
     \<and> (\<forall>e' \<in> set (snd (process_run g m items)).
          isOff e' \<longrightarrow> \<not> (sample_number e \<le> sample_number e' \<and> sample_number e' < sample_number e + 2001))"
proof (induction items arbitrary: m p)
  case Nil
  then show ?case by simp
next
  case (Cons x items)
  let ?K = "sample_number e"
  show ?case
  proof (cases x)
    case (Block buffer f n)
    let ?xs = "blockSamples buffer (triggerChannel m) n"
    let ?r = "sample_loop p 0 ?xs m"
    let ?es1 = "set (snd ?r)"
    let ?es2 = "set (snd (process_run g (fst ?r) items))"
    from Cons.prems Block have c: "canDetect m buffer" and f: "f = p" by simp_all
    have ps: "process_stream m buffer f n = ?r" using c f by (simp add: process_stream_canDetect)
    from Cons.prems(1,2) Block have g1: "runUnderGuard g (fst ?r) items"
      and c1: "contiguousRun (p + int n) items" by (simp_all add: ps)
    have es: "set (snd (process_run g m (x # items))) = ?es1 \<union> ?es2"
      using Block by (simp add: run_Block ps)
    have e1: "?K + 2001 < endOfItems (p + int n) items" using Cons.prems(6) Block by simp
    have quiet1: "\<forall>e' \<in> ?es1. isOn e' \<longrightarrow> \<not> (?K < sample_number e' \<and> sample_number e' \<le> ?K + 2001)"
      using Cons.prems(5) es by blast
    have quiet2: "\<forall>e' \<in> ?es2. isOn e' \<longrightarrow> \<not> (?K < sample_number e' \<and> sample_number e' \<le> ?K + 2001)"
      using Cons.prems(5) es by blast
    from Cons.prems(3) es consider "e \<in> ?es1" | "e \<in> ?es2" by blast
    then show ?thesis
    proof cases
      case 1
      note range = sample_loop_sample_number [OF 1]
      have line: "line e = outputLineAt g m (x # items) ?K"
        using loop_on_line [OF 1 Cons.prems(4)] range Block f by simp
      have noff1: "\<not> (?K \<le> sample_number e' \<and> sample_number e' < ?K + 2001)"
        if "e' \<in> ?es1" "isOff e'" for e'
        by (rule loop_on_quiet [OF 1 Cons.prems(4) that])
      show ?thesis
      proof (cases "?K + 2001 < p + int n")
        case True
        have l: "?K + 2001 < p + int 0 + int (length ?xs)" using True by simp
        from loop_on_off [OF 1 Cons.prems(4) l quiet1]
        have off: "TTLEvent TRIGGER_OFF (?K + 2001) (outputLineAt g m (x # items) (?K + 2001))
                     \<in> set (snd (process_run g m (x # items)))"
          using es Block f True by simp
        have noff: "\<not> (?K \<le> sample_number e' \<and> sample_number e' < ?K + 2001)"
          if "e' \<in> set (snd (process_run g m (x # items)))" "isOff e'" for e'
        proof -
          from that(1) es consider "e' \<in> ?es1" | "e' \<in> ?es2" by blast
          then show ?thesis
          proof cases
            case 1
            then show ?thesis using that(2) by (rule noff1)
          next
            case 2
            from run_sample_number [OF g1 c1 2] True show ?thesis by simp
          qed
        qed
        from line off noff show ?thesis by blast
      next
        case False
        then have le: "p + int n \<le> ?K + 2001" by simp
        have last1: "\<forall>e' \<in> ?es1. isOn e' \<longrightarrow> sample_number e' \<le> ?K"
        proof (intro ballI impI)
          fix e' assume e': "e' \<in> ?es1" "isOn e'"
          with quiet1 have "\<not> (?K < sample_number e' \<and> sample_number e' \<le> ?K + 2001)" by blast
          with sample_loop_sample_number [OF e'(1)] le show "sample_number e' \<le> ?K" by simp
        qed
        have l: "p + int 0 + int (length ?xs) \<le> ?K + 2001" using le by simp
        note oc = loop_on_count [OF 1 Cons.prems(4) last1 l]
        have w1: "wasTriggered (fst ?r)" using oc by simp
        have s1: "samplesSinceTrigger (fst ?r) = p + int n - ?K" using oc by simp
        have k1: "?K < p + int n" using range by simp
        note rd = run_deadline [OF g1 c1 w1 s1 k1 le e1 quiet2]
        have off: "TTLEvent TRIGGER_OFF (?K + 2001) (outputLineAt g m (x # items) (?K + 2001))
                     \<in> set (snd (process_run g m (x # items)))"
          using rd es Block f False ps by simp
        have noff: "\<not> (?K \<le> sample_number e' \<and> sample_number e' < ?K + 2001)"
          if "e' \<in> set (snd (process_run g m (x # items)))" "isOff e'" for e'
        proof -
          from that(1) es consider "e' \<in> ?es1" | "e' \<in> ?es2" by blast
          then show ?thesis
          proof cases
            case 1
            then show ?thesis using that(2) by (rule noff1)
          next
            case 2
            with rd that(2) have "?K + 2001 \<le> sample_number e'" by blast
            then show ?thesis by simp
          qed
        qed
        from line off noff show ?thesis by blast
      qed
    next
      case 2
      note range = run_sample_number [OF g1 c1 2]
      note ih = Cons.IH [OF g1 c1 2 Cons.prems(4) quiet2 e1]
      have line: "line e = outputLineAt g m (x # items) ?K"
        using ih range Block f ps by simp
      have off: "TTLEvent TRIGGER_OFF (?K + 2001) (outputLineAt g m (x # items) (?K + 2001))
                     \<in> set (snd (process_run g m (x # items)))"
        using ih range es Block f ps by simp
      have noff: "\<not> (?K \<le> sample_number e' \<and> sample_number e' < ?K + 2001)"
        if "e' \<in> set (snd (process_run g m (x # items)))" "isOff e'" for e'
      proof -
        from that(1) es consider "e' \<in> ?es1" | "e' \<in> ?es2" by blast
        then show ?thesis
        proof cases
          case 1
          from sample_loop_sample_number [OF 1] range show ?thesis by simp
        next
          case 2
          with ih that(2) show ?thesis by blast
        qed
      qed
      from line off noff show ?thesis by blast
    qed
  next
    case (Reconfigure q)
    with Cons.prems Cons.IH [of "parameterValueChanged g q m" p] show ?thesis by simp
  next
    case (TTLInput w l s)
    with Cons.prems Cons.IH [of "handleTTLEvent w l s m" p] show ?thesis by simp
  qed
qed

lemma keepsOutputLine_simps [simp]:
  "keepsOutputLine []"
  "keepsOutputLine (Block buffer f n # items) = keepsOutputLine items"
  "keepsOutputLine (Reconfigure q # items) = ((\<forall>v. q \<noteq> TtlOut v) \<and> keepsOutputLine items)"
  "keepsOutputLine (TTLInput w l s # items) = keepsOutputLine items"
  by (auto simp add: keepsOutputLine_def split: Parameter.splits)

lemma keepsOutputLine_append [simp]:
  "keepsOutputLine (xs @ ys) = (keepsOutputLine xs \<and> keepsOutputLine ys)"
  by (simp add: keepsOutputLine_def)

lemma reconfigure_keeps:
  assumes "\<forall>v. q \<noteq> TtlOut v"
  shows "outputLine (parameterValueChanged g q m) = outputLine m"
    and "lastOutputLine (parameterValueChanged g q m) = lastOutputLine m"
    and "outputLineChanged (parameterValueChanged g q m) = outputLineChanged m"
  using assms by (cases q; simp add: Let_def split: list.splits)+

lemma handleTTLEvent_keeps:
  "outputLine (handleTTLEvent w l s m) = outputLine m"
  "lastOutputLine (handleTTLEvent w l s m) = lastOutputLine m"
  "outputLineChanged (handleTTLEvent w l s m) = outputLineChanged m"
  by (simp_all add: handleTTLEvent_def Let_def)

lemma outputLineAt_keeps:
  "keepsOutputLine items \<Longrightarrow> outputLineAt g m items t = outputLine m"
proof (induction items arbitrary: m)
  case Nil
  show ?case by simp
next
  case (Cons x items)
  show ?case
  proof (cases x)
    case (Block buffer f n)
    with Cons.prems Cons.IH [of "fst (process_stream m buffer f n)"] show ?thesis
      by (simp add: process_stream_frame)
  next
    case (Reconfigure q)
    with Cons.prems Cons.IH [of "parameterValueChanged g q m"] show ?thesis
      by (simp add: reconfigure_keeps)
  next
    case (TTLInput w l s)
    with Cons.prems Cons.IH [of "handleTTLEvent w l s m"] show ?thesis
      by (simp add: handleTTLEvent_keeps)
  qed
qed

lemma process_run_append:
  "fst (process_run g m (xs @ ys)) = fst (process_run g (fst (process_run g m xs)) ys)"
  "snd (process_run g m (xs @ ys)) =
     snd (process_run g m xs) @ snd (process_run g (fst (process_run g m xs)) ys)"
proof (induction xs arbitrary: m)
  case Nil
  {
    case 1 show ?case by simp
  next
    case 2 show ?case by simp
  }
next
  case (Cons x xs)
  {
    case 1 show ?case by (cases x) (simp_all add: run_Block Cons.IH)
  next
    case 2 show ?case by (cases x) (simp_all add: run_Block Cons.IH)
  }
qed

lemma runUnderGuard_append:
  "runUnderGuard g m (xs @ ys) \<longleftrightarrow>
     runUnderGuard g m xs \<and> runUnderGuard g (fst (process_run g m xs)) ys"
proof (induction xs arbitrary: m)
  case Nil
  show ?case by simp
next
  case (Cons x xs)
  show ?case by (cases x) (simp_all add: run_Block Cons.IH)
qed

lemma endOfItems_append: "endOfItems p (xs @ ys) = endOfItems (endOfItems p xs) ys"
proof (induction xs arbitrary: p)
  case Nil
  show ?case by simp
next
  case (Cons x xs)
  show ?case by (cases x) (simp_all add: Cons.IH)
qed

lemma contiguousRun_append:
  "contiguousRun p (xs @ ys) \<longleftrightarrow> contiguousRun p xs \<and> contiguousRun (endOfItems p xs) ys"
proof (induction xs arbitrary: p)
  case Nil
  show ?case by simp
next
  case (Cons x xs)
  show ?case by (cases x) (simp_all add: Cons.IH)
qed

lemma run_on_boundary:
  assumes "runUnderGuard g m (pre @ post)" "contiguousRun p (pre @ post)"
    and "e \<in> set (snd (process_run g m (pre @ post)))" "isOn e"
    and "\<forall>e' \<in> set (snd (process_run g m (pre @ post))).
           isOn e' \<longrightarrow> \<not> (sample_number e < sample_number e' \<and> sample_number e' \<le> sample_number e + 2001)"
    and "sample_number e < endOfItems p pre" "endOfItems p pre \<le> sample_number e + 2001"
  shows "wasTriggered (fst (process_run g m pre))
       \<and> samplesSinceTrigger (fst (process_run g m pre)) = endOfItems p pre - sample_number e"
proof -
  let ?m1 = "fst (process_run g m pre)"
  from assms(1) have g1: "runUnderGuard g m pre" and g2: "runUnderGuard g ?m1 post"
    by (simp_all add: runUnderGuard_append)
  from assms(2) have c1: "contiguousRun p pre" and c2: "contiguousRun (endOfItems p pre) post"
    by (simp_all add: contiguousRun_append)
  have es: "set (snd (process_run g m (pre @ post)))
              = set (snd (process_run g m pre)) \<union> set (snd (process_run g ?m1 post))"
    by (simp add: process_run_append)
  have e: "e \<in> set (snd (process_run g m pre))"
  proof (rule ccontr)
    assume "e \<notin> set (snd (process_run g m pre))"
    with assms(3) es have "e \<in> set (snd (process_run g ?m1 post))" by blast
    from run_sample_number [OF g2 c2 this] assms(6) show False by simp
  qed
  have last: "\<forall>e' \<in> set (snd (process_run g m pre)). isOn e' \<longrightarrow> sample_number e' \<le> sample_number e"
  proof (intro ballI impI)
    fix e' assume e': "e' \<in> set (snd (process_run g m pre))" "isOn e'"
    with assms(5) es
    have "\<not> (sample_number e < sample_number e' \<and> sample_number e' \<le> sample_number e + 2001)"
      by blast
    with run_sample_number [OF g1 c1 e'(1)] assms(7) show "sample_number e' \<le> sample_number e"
      by simp
  qed
  show ?thesis by (rule run_on_count [OF g1 c1 e assms(4) last assms(7)])
qed

lemma flat_block_no_on:
  assumes "canDetect m [replicate n s]" "lastSample m = s"
  shows "filter isOn (snd (process_stream m [replicate n s] first n)) = []"
proof -
  from assms(1) have "triggerChannel m = 0" by (simp add: canDetect_def)
  then have "blockSamples [replicate n s] (triggerChannel m) n = replicate n s"
    by (simp add: blockSamples_whole)
  then show ?thesis
    using flat_no_on [OF assms(2)] by (simp add: process_stream_canDetect [OF assms(1)])
qed

lemma peak_block:
  "process_stream (newSettings\<lparr>outputLine := 3, lastSample := 1\<rparr>) [[0.5]] 0 1
     = (newSettings\<lparr>outputLine := 3, lastSample := 0.5, currentPhase := FALLING_POS,
                    wasTriggered := True, samplesSinceTrigger := 1\<rparr>,
        [TTLEvent TRIGGER_ON 0 3])"
proof -
  have c: "canDetect (newSettings\<lparr>outputLine := 3, lastSample := 1\<rparr>) [[0.5]]"
    by (simp add: canDetect_def newSettings_def)
  show ?thesis
    unfolding process_stream_canDetect [OF c]
    by (simp add: blockSamples_whole newSettings_def sample_loop.simps(2) step_defs
          targetHit_def landmark_def)
qed

lemma stream_off_line:
  assumes "e \<in> set (snd (process_stream m buffer first n))" "isOff e"
  shows "line e = outputLine m"
proof (cases "canDetect m buffer")
  case True
  with assms show ?thesis by (simp add: process_stream_canDetect loop_off_line)
next
  case False
  with assms show ?thesis
    by (auto simp add: process_stream_not_canDetect endOfBlock_eq split: if_splits)
qed

lemma peakState_block:
  "process_stream peakState [[0.5]] 0 1
     = (newSettings\<lparr>outputLine := 3, lastSample := 0.5, currentPhase := FALLING_POS,
                    wasTriggered := True, samplesSinceTrigger := 1\<rparr>,
        [TTLEvent TRIGGER_ON 0 3])"
  unfolding peakState_def by (rule peak_block)

lemma reconfiguredRun_guard:
  "runUnderGuard id peakState reconfiguredRun" "contiguousRun 0 reconfiguredRun"
  "endOfItems 0 reconfiguredRun = 2002"
  by (simp_all only: reconfiguredRun_def runUnderGuard.simps contiguousRun.simps
        endOfItems.simps peakState_block fst_conv parameterValueChanged.simps)
     (simp_all add: peakState_def canDetect_def newSettings_def)

lemma interleavedRun_guard:
  "runUnderGuard id peakState interleavedRun" "contiguousRun 0 interleavedRun"
  "endOfItems 0 interleavedRun = 2002" "keepsOutputLine interleavedRun"
  by (simp_all only: interleavedRun_def runUnderGuard.simps contiguousRun.simps
        endOfItems.simps peakState_block fst_conv keepsOutputLine_simps)
     (simp_all add: peakState_def canDetect_def newSettings_def handleTTLEvent_def Let_def)

lemma reconfiguredRun_events:
  "snd (process_run id peakState reconfiguredRun)
     = TTLEvent TRIGGER_ON 0 3
       # snd (process_stream
                (newSettings\<lparr>outputLine := 5, lastSample := 0.5, currentPhase := FALLING_POS,
                   wasTriggered := True, samplesSinceTrigger := 1, lastOutputLine := 3,
                   outputLineChanged := True\<rparr>)
                [replicate 2001 0.5] 1 2001)"
  by (simp only: reconfiguredRun_def run_Block process_run.simps(1,3,4) peakState_block fst_conv
        snd_conv parameterValueChanged.simps)
     (simp add: newSettings_def)

lemma interleavedRun_events:
  "snd (process_run id peakState interleavedRun)
     = TTLEvent TRIGGER_ON 0 3
       # snd (process_stream
                (newSettings\<lparr>outputLine := 3, lastSample := 0.5, currentPhase := FALLING_POS,
                   wasTriggered := True, samplesSinceTrigger := 1, lastTTLWord := 1\<rparr>)
                [replicate 2001 0.5] 1 2001)"
  by (simp only: interleavedRun_def run_Block process_run.simps(1,3,4) peakState_block fst_conv
        snd_conv)
     (simp add: newSettings_def handleTTLEvent_def Let_def)

lemma reconfiguredRun_on:
  "filter isOn (snd (process_run id peakState reconfiguredRun)) = [TTLEvent TRIGGER_ON 0 3]"
  unfolding reconfiguredRun_events
  by (simp add: flat_block_no_on canDetect_def newSettings_def)

lemma interleavedRun_on:
  "filter isOn (snd (process_run id peakState interleavedRun)) = [TTLEvent TRIGGER_ON 0 3]"
  unfolding interleavedRun_events
  by (simp add: flat_block_no_on canDetect_def newSettings_def)

lemma filter_singleton_mem:
  assumes "filter P xs = [a]"
  shows "a \<in> set xs" and "\<And>x. x \<in> set xs \<Longrightarrow> P x \<Longrightarrow> x = a"
proof -
  have s: "set (filter P xs) = {a}" by (simp only: assms) simp
  then show "a \<in> set xs" by auto
  fix x assume "x \<in> set xs" "P x"
  then have "x \<in> set (filter P xs)" by simp
  with s show "x = a" by blast
qed

lemma reconfiguredRun_quiet:
  "TTLEvent TRIGGER_ON 0 3 \<in> set (snd (process_run id peakState reconfiguredRun))"
  "\<forall>e \<in> set (snd (process_run id peakState reconfiguredRun)).
     isOn e \<longrightarrow> \<not> (0 < sample_number e \<and> sample_number e \<le> 0 + 2001)"
proof -
  show "TTLEvent TRIGGER_ON 0 3 \<in> set (snd (process_run id peakState reconfiguredRun))"
    by (rule filter_singleton_mem(1) [OF reconfiguredRun_on])
  show "\<forall>e \<in> set (snd (process_run id peakState reconfiguredRun)).
     isOn e \<longrightarrow> \<not> (0 < sample_number e \<and> sample_number e \<le> 0 + 2001)"
  proof (intro ballI impI)
    fix e assume "e \<in> set (snd (process_run id peakState reconfiguredRun))" "isOn e"
    from filter_singleton_mem(2) [OF reconfiguredRun_on this] show
      "\<not> (0 < sample_number e \<and> sample_number e \<le> 0 + 2001)" by simp
  qed
qed

lemma interleavedRun_quiet:
  "TTLEvent TRIGGER_ON 0 3 \<in> set (snd (process_run id peakState interleavedRun))"
  "\<forall>e \<in> set (snd (process_run id peakState interleavedRun)).
     isOn e \<longrightarrow> \<not> (0 < sample_number e \<and> sample_number e \<le> 0 + 2001)"
proof -
  show "TTLEvent TRIGGER_ON 0 3 \<in> set (snd (process_run id peakState interleavedRun))"
    by (rule filter_singleton_mem(1) [OF interleavedRun_on])
  show "\<forall>e \<in> set (snd (process_run id peakState interleavedRun)).
     isOn e \<longrightarrow> \<not> (0 < sample_number e \<and> sample_number e \<le> 0 + 2001)"
  proof (intro ballI impI)
    fix e assume "e \<in> set (snd (process_run id peakState interleavedRun))" "isOn e"
    from filter_singleton_mem(2) [OF interleavedRun_on this] show
      "\<not> (0 < sample_number e \<and> sample_number e \<le> 0 + 2001)" by simp
  qed
qed

lemma reconfiguredRun_line:
  "outputLineAt id peakState reconfiguredRun 2001 = 5"
  by (simp only: reconfiguredRun_def outputLineAt.simps peakState_block fst_conv
        parameterValueChanged.simps)
     simp

lemma reconfiguredRun_off_lines:
  assumes "e \<in> set (snd (process_run id peakState reconfiguredRun))" "isOff e"
  shows "line e = 5"
proof -
  from assms have "e \<in> set (snd (process_stream
                (newSettings\<lparr>outputLine := 5, lastSample := 0.5, currentPhase := FALLING_POS,
                   wasTriggered := True, samplesSinceTrigger := 1, lastOutputLine := 3,
                   outputLineChanged := True\<rparr>)
                [replicate 2001 0.5] 1 2001))"
    unfolding reconfiguredRun_events by (cases e) auto
  from stream_off_line [OF this assms(2)] show ?thesis by (simp add: newSettings_def)
qed

lemma createEvent_on:
  "samplesSinceTrigger (snd (createEvent w sn True)) = 0"
  "wasTriggered (snd (createEvent w sn True))"
  "fst (createEvent w sn True) = TTLEvent TRIGGER_ON sn (outputLine w)"
  by (simp_all add: createEvent_def)

lemma pulseTimeout_count:
  "wasTriggered w \<Longrightarrow> samplesSinceTrigger w \<le> 2000 \<Longrightarrow>
     pulseTimeout sn w = (w\<lparr>samplesSinceTrigger := samplesSinceTrigger w + 1\<rparr>, [])"
  by (simp add: pulseTimeout_def)

lemma pulseTimeout_off:
  "wasTriggered w \<Longrightarrow> samplesSinceTrigger w > 2000 \<Longrightarrow>
     pulseTimeout sn w = (w\<lparr>wasTriggered := False\<rparr>, [TTLEvent TRIGGER_OFF sn (outputLine w)])"
  by (simp add: pulseTimeout_def createEvent_def)

section \<open>The pulse width\<close>




section \<open>A second match during a pulse\<close>

text \<open>
  Claim C9. A sample that matches the target while a pulse is pending (\<open>wasTriggered\<close> is
  true) makes \<open>detect\<close> emit an on-event and reset \<open>samplesSinceTrigger\<close> to 0, and no
  off-event is emitted at that sample. So in a run of blocks under the guard, when an
  on-event at \<open>K1\<close> is followed by an on-event at \<open>K2\<close> no more than 2001 samples later,
  both are on the same line and no off-event lies between them; and when no further
  on-event follows within 2001 samples of \<open>K2\<close>, the time-out's off-event comes at
  \<open>K2 + 2001\<close>, 2001 samples after the most recent on-event, and there is none from \<open>K1\<close> up
  to there (in particular none at \<open>K1 + 2001\<close>, unless that is \<open>K2 + 2001\<close>). The example
  run has the on-events at 1 and 4 and the off-event at 2005, not at 2002.
\<close>

theorem retrigger_extends_pulse:
  assumes "\<forall>b \<in> set blocks. canDetect m (fst b)"
    and "contiguous first blocks"
    and "TTLEvent TRIGGER_ON K1 l1 \<in> set (snd (process_blocks m blocks))"
    and "TTLEvent TRIGGER_ON K2 l2 \<in> set (snd (process_blocks m blocks))"
    and "K1 < K2" and "K2 \<le> K1 + 2001"
    and "\<forall>e \<in> set (snd (process_blocks m blocks)).
           isOn e \<longrightarrow> \<not> (K2 < sample_number e \<and> sample_number e \<le> K2 + 2001)"
    and "K2 + 2001 < endOfRun first blocks"
    and "wasTriggered w" and "targetHit w s"
  shows "samplesSinceTrigger (fst (detect sn s w)) = 0
       \<and> snd (detect sn s w) = [TTLEvent TRIGGER_ON sn (outputLine w)]
       \<and> filter isOff (snd (process_sample f i s w)) = []
       \<and> l2 = l1
       \<and> (\<forall>e \<in> set (snd (process_blocks m blocks)).
            isOff e \<longrightarrow> \<not> (K1 \<le> sample_number e \<and> sample_number e < K2 + 2001))
       \<and> TTLEvent TRIGGER_OFF (K2 + 2001) l1 \<in> set (snd (process_blocks m blocks))"
proof -
  let ?es = "set (snd (process_blocks m blocks))"
  note g = assms(1,2)
  have l: "l1 = outputLine m" "l2 = outputLine m"
    using run_on_line [OF g assms(3)] run_on_line [OF g assms(4)] by simp_all
  have q: "\<not> (K1 \<le> sample_number e \<and> sample_number e < K2 + 2001)"
    if "e \<in> ?es" "isOff e" for e
  proof -
    have "\<not> (K1 \<le> sample_number e \<and> sample_number e < K1 + 2001)"
      using run_on_quiet [OF g assms(3) _ that] by simp
    moreover have "\<not> (K2 \<le> sample_number e \<and> sample_number e < K2 + 2001)"
      using run_on_quiet [OF g assms(4) _ that] by simp
    ultimately show ?thesis using assms(5,6) by arith
  qed
  have off: "TTLEvent TRIGGER_OFF (K2 + 2001) l2 \<in> ?es"
    using run_pulse_off [OF g assms(4,7,8)] by blast
  have step: "samplesSinceTrigger (fst (detect sn s w)) = 0"
    "snd (detect sn s w) = [TTLEvent TRIGGER_ON sn (outputLine w)]"
    "filter isOff (snd (process_sample f i s w)) = []"
    using retrigger_step(1,3) [OF assms(9,10)] by simp_all
  show ?thesis
    using step l q off by blast
qed

theorem retrigger_extends_pulse_witness:
  "TTLEvent TRIGGER_ON 1 0 \<in> set (snd (process_blocks newSettings exampleBlocks))
   \<and> TTLEvent TRIGGER_ON 4 0 \<in> set (snd (process_blocks newSettings exampleBlocks))
   \<and> TTLEvent TRIGGER_OFF 2002 0 \<notin> set (snd (process_blocks newSettings exampleBlocks))
   \<and> TTLEvent TRIGGER_OFF 2005 0 \<in> set (snd (process_blocks newSettings exampleBlocks))
   \<and> snd (detect 4 0.3 (newSettings\<lparr>wasTriggered := True, samplesSinceTrigger := 3, lastSample := 0.5\<rparr>))
       = [TTLEvent TRIGGER_ON 4 0]
   \<and> samplesSinceTrigger
        (fst (detect 4 0.3 (newSettings\<lparr>wasTriggered := True, samplesSinceTrigger := 3, lastSample := 0.5\<rparr>)))
       = 0"
proof -
  let ?w = "newSettings\<lparr>wasTriggered := True, samplesSinceTrigger := 3, lastSample := 0.5\<rparr>"
  have quiet: "\<forall>e \<in> set (snd (process_blocks newSettings exampleBlocks)).
                  isOn e \<longrightarrow> \<not> (4 < sample_number e \<and> sample_number e \<le> 4 + 2001)"
  proof (intro ballI impI)
    fix e assume "e \<in> set (snd (process_blocks newSettings exampleBlocks))" "isOn e"
    from exampleBlocks_set_on [OF this]
    show "\<not> (4 < sample_number e \<and> sample_number e \<le> 4 + 2001)" by auto
  qed
  have long: "4 + 2001 < endOfRun 0 exampleBlocks" by (simp add: exampleBlocks_end)
  have w: "wasTriggered ?w" "targetHit ?w 0.3"
    by (simp_all add: targetHit_def landmark_def newSettings_def)
  have r: "samplesSinceTrigger (fst (detect 4 0.3 ?w)) = 0
       \<and> snd (detect 4 0.3 ?w) = [TTLEvent TRIGGER_ON 4 (outputLine ?w)]
       \<and> filter isOff (snd (process_sample 0 4 0.3 ?w)) = []
       \<and> (0::int) = 0
       \<and> (\<forall>e \<in> set (snd (process_blocks newSettings exampleBlocks)).
            isOff e \<longrightarrow> \<not> (1 \<le> sample_number e \<and> sample_number e < 4 + 2001))
       \<and> TTLEvent TRIGGER_OFF (4 + 2001) 0 \<in> set (snd (process_blocks newSettings exampleBlocks))"
    by (rule retrigger_extends_pulse [OF exampleBlocks_guard exampleBlocks_contiguous
          exampleBlocks_has_on(1) exampleBlocks_has_on(2) _ _ quiet long w]) simp_all
  then have "TTLEvent TRIGGER_OFF 2002 0 \<notin> set (snd (process_blocks newSettings exampleBlocks))"
    by fastforce
  with r exampleBlocks_has_on show ?thesis by (simp add: newSettings_def)
qed

section \<open>The forced off-event at the end of a block\<close>

text \<open>
  Claim C2, as stated, asks for the forced off-event also when the trigger channel is out
  of range above. The test after the loop is \<^verbatim>\<open>triggerChannel < 0 || isActive == false\<close>:
  with a pulse pending, the detector active and \<open>triggerChannel = 5\<close> on a buffer of one
  channel, the loop is skipped, no event is emitted and \<open>wasTriggered\<close> stays true.
\<close>

theorem forced_off_counterexample:
  "wasTriggered (fst (guardedLoop (newSettings\<lparr>wasTriggered := True, triggerChannel := 5\<rparr>)
                   [[0.1, 0.2]] 0 2))
   \<and> int (length [[0.1, 0.2 :: real]])
        \<le> triggerChannel (fst (guardedLoop (newSettings\<lparr>wasTriggered := True, triggerChannel := 5\<rparr>)
                   [[0.1, 0.2]] 0 2))
   \<and> snd (process_stream (newSettings\<lparr>wasTriggered := True, triggerChannel := 5\<rparr>)
           [[0.1, 0.2]] 0 2) = []
   \<and> wasTriggered (fst (process_stream (newSettings\<lparr>wasTriggered := True, triggerChannel := 5\<rparr>)
           [[0.1, 0.2]] 0 2))"
  by (simp add: process_stream_def guardedLoop_def canDetect_def endOfBlock_eq newSettings_def)

text \<open>
  Claim C2, amended. If after the guarded loop \<open>wasTriggered\<close> is true and either
  \<open>triggerChannel < 0\<close> or \<open>isActive\<close> is false, then the loop was skipped and emitted
  nothing, exactly one off-event is emitted, at the block's first sample number on
  \<open>outputLine\<close>, and \<open>wasTriggered\<close> becomes false.
\<close>

theorem forced_off_at_block_start:
  assumes "guardedLoop m buffer first n = (m1, es1)"
    and "wasTriggered m1" and "triggerChannel m1 < 0 \<or> \<not> isActive m1"
  shows "process_stream m buffer first n
           = (m1\<lparr>wasTriggered := False\<rparr>, es1 @ [TTLEvent TRIGGER_OFF first (outputLine m1)])
       \<and> es1 = [] \<and> m1 = m
       \<and> filter isOff (snd (process_stream m buffer first n))
           = [TTLEvent TRIGGER_OFF first (outputLine m)]
       \<and> \<not> wasTriggered (fst (process_stream m buffer first n))"
proof -
  have nc: "\<not> canDetect m buffer"
  proof
    assume c: "canDetect m buffer"
    then have "m1 = fst (sample_loop first 0 (blockSamples buffer (triggerChannel m) n) m)"
      using assms(1) by (simp add: guardedLoop_def)
    then have "isActive m1 = isActive m" "triggerChannel m1 = triggerChannel m"
      by (simp_all add: sample_loop_frame)
    with c assms(3) show False by (simp add: canDetect_def)
  qed
  then have eq: "m1 = m" "es1 = []" using assms(1) by (simp_all add: guardedLoop_def)
  show ?thesis
    using assms(2,3) nc unfolding eq
    by (simp add: process_stream_not_canDetect endOfBlock_eq)
qed

theorem forced_off_at_block_start_witness:
  "process_stream (newSettings\<lparr>wasTriggered := True, isActive := False, gateLine := 2, outputLine := 4\<rparr>)
     [[0.1, 0.2]] 100 2
   = (newSettings\<lparr>wasTriggered := False, isActive := False, gateLine := 2, outputLine := 4\<rparr>,
      [TTLEvent TRIGGER_OFF 100 4])"
  using forced_off_at_block_start
    [of "newSettings\<lparr>wasTriggered := True, isActive := False, gateLine := 2, outputLine := 4\<rparr>"
        "[[0.1, 0.2]]" 100 2
        "newSettings\<lparr>wasTriggered := True, isActive := False, gateLine := 2, outputLine := 4\<rparr>" "[]"]
  by (simp add: guardedLoop_def canDetect_def newSettings_def)

section \<open>Blocks that fail the guard\<close>

text \<open>
  Claim C4, as stated, has \<open>lastSample\<close> advance through a block whose guard fails. The
  assignment to \<open>lastSample\<close> is inside the guarded loop: with the gate closed
  (\<open>isActive\<close> false) and the block \<open>[1, 2]\<close>, \<open>lastSample\<close> is still 0 afterwards, not 2.
\<close>

theorem lastSample_not_advanced_counterexample:
  "\<not> canDetect (newSettings\<lparr>isActive := False, gateLine := 2\<rparr>) [[1, 2]]
   \<and> blockSamples [[1, 2]] (triggerChannel (newSettings\<lparr>isActive := False, gateLine := 2\<rparr>)) 2 = [1, 2]
   \<and> lastSample (fst (process_stream (newSettings\<lparr>isActive := False, gateLine := 2\<rparr>) [[1, 2]] 0 2)) = 0"
  by (simp add: process_stream_not_canDetect canDetect_def endOfBlock_eq newSettings_def
        blockSamples_whole)

text \<open>
  Claim C4, amended. A block processed while the guard fails (the detector inactive, or
  the output line negative, or the trigger channel no valid index) skips the loop
  altogether: \<open>lastSample\<close>, \<open>currentPhase\<close>, \<open>samplesSinceTrigger\<close> and
  \<open>outputLineChanged\<close> keep their values (so \<open>lastSample\<close> is not advanced and there is no
  pulse-width countdown), no on-event and no line clear is emitted, and the only possible
  effect is the forced off-event of the end of the block, which resets \<open>wasTriggered\<close>.
\<close>

theorem guard_fails_loop_skipped:
  assumes "\<not> canDetect m buffer"
  shows "process_stream m buffer first n =
           (if wasTriggered m \<and> (triggerChannel m < 0 \<or> \<not> isActive m)
            then (m\<lparr>wasTriggered := False\<rparr>, [TTLEvent TRIGGER_OFF first (outputLine m)])
            else (m, []))
       \<and> lastSample (fst (process_stream m buffer first n)) = lastSample m
       \<and> currentPhase (fst (process_stream m buffer first n)) = currentPhase m
       \<and> samplesSinceTrigger (fst (process_stream m buffer first n)) = samplesSinceTrigger m
       \<and> outputLineChanged (fst (process_stream m buffer first n)) = outputLineChanged m
       \<and> filter isOn (snd (process_stream m buffer first n)) = []
       \<and> filter isClear (snd (process_stream m buffer first n)) = []"
  using assms by (simp add: process_stream_not_canDetect endOfBlock_eq)

theorem guard_fails_loop_skipped_witness:
  "process_stream (newSettings\<lparr>isActive := False, gateLine := 2, lastSample := 7\<rparr>) [[1, 2]] 0 2
     = (newSettings\<lparr>isActive := False, gateLine := 2, lastSample := 7\<rparr>, [])
   \<and> lastSample (fst (process_stream (newSettings\<lparr>isActive := False, gateLine := 2, lastSample := 7\<rparr>)
        [[1, 2]] 0 2)) = 7"
  using guard_fails_loop_skipped
    [of "newSettings\<lparr>isActive := False, gateLine := 2, lastSample := 7\<rparr>" "[[1, 2]]" 0 2]
  by (simp add: canDetect_def newSettings_def)

section \<open>Clearing the replaced output line\<close>

lemma run_clear_skip:
  "skipsLoop g m items \<Longrightarrow> keepsOutputLine items \<Longrightarrow>
     filter isClear (snd (process_run g m items)) = []
     \<and> outputLineChanged (fst (process_run g m items)) = outputLineChanged m
     \<and> lastOutputLine (fst (process_run g m items)) = lastOutputLine m"
proof (induction items arbitrary: m)
  case Nil
  show ?case by simp
next
  case (Cons x items)
  show ?case
  proof (cases x)
    case (Block buffer f n)
    let ?m1 = "fst (process_stream m buffer f n)"
    from Cons.prems Block have skip: "\<not> runsLoop m (buffer, f, n)"
      and rest: "skipsLoop g ?m1 items" "keepsOutputLine items" by simp_all
    from Cons.IH [OF rest] stream_clear_skip [OF skip] show ?thesis
      using Block by (simp add: run_Block process_stream_frame)
  next
    case (Reconfigure q)
    with Cons.prems Cons.IH [of "parameterValueChanged g q m"] show ?thesis
      by (simp add: reconfigure_keeps)
  next
    case (TTLInput w l s)
    with Cons.prems Cons.IH [of "handleTTLEvent w l s m"] show ?thesis
      by (simp add: handleTTLEvent_keeps)
  qed
qed

lemma run_clear_none:
  "\<not> outputLineChanged m \<Longrightarrow> keepsOutputLine items \<Longrightarrow>
     filter isClear (snd (process_run g m items)) = []"
proof (induction items arbitrary: m)
  case Nil
  show ?case by simp
next
  case (Cons x items)
  show ?case
  proof (cases x)
    case (Block buffer f n)
    from stream_clear_none [OF Cons.prems(1), of buffer f n] Cons.prems(2) Block
      Cons.IH [of "fst (process_stream m buffer f n)"]
    show ?thesis by (simp add: run_Block)
  next
    case (Reconfigure q)
    with Cons.prems Cons.IH [of "parameterValueChanged g q m"] show ?thesis
      by (simp add: reconfigure_keeps)
  next
    case (TTLInput w l s)
    with Cons.prems Cons.IH [of "handleTTLEvent w l s m"] show ?thesis
      by (simp add: handleTTLEvent_keeps)
  qed
qed

text \<open>
  Claim C5, as stated, puts the line clear at the first sample of the next processed block.
  The line clear is emitted inside the guarded loop. With the output line changed from 0 to
  5 while the gate is closed (\<open>isActive\<close> false), the next processed block emits nothing;
  once a gate event has opened the gate, the block after it emits the line clear, on line
  0, at its own first sample.
\<close>

theorem line_clear_counterexample:
  "snd (process_stream
          (parameterValueChanged id (TtlOut 5) (newSettings\<lparr>gateLine := 2, isActive := False\<rparr>))
          [[0.1, 0.2]] 0 2) = []
   \<and> filter isClear
        (snd (process_stream
                (handleTTLEvent 4 2 True
                   (fst (process_stream
                           (parameterValueChanged id (TtlOut 5)
                              (newSettings\<lparr>gateLine := 2, isActive := False\<rparr>))
                           [[0.1, 0.2]] 0 2)))
                [[0.3, 0.4]] 2 2))
       = [TTLEvent LINE_CLEAR 2 0]"
proof -
  let ?m0 = "parameterValueChanged id (TtlOut 5) (newSettings\<lparr>gateLine := 2, isActive := False\<rparr>)"
  have nc: "\<not> canDetect ?m0 [[0.1, 0.2]]" by (simp add: canDetect_def newSettings_def)
  have 1: "process_stream ?m0 [[0.1, 0.2]] 0 2 = (?m0, [])"
    by (simp only: process_stream_not_canDetect [OF nc]) (simp add: endOfBlock_eq newSettings_def)
  let ?m1 = "handleTTLEvent 4 2 True ?m0"
  have f: "outputLineChanged ?m1" "lastOutputLine ?m1 = 0"
    by (simp_all add: handleTTLEvent_def newSettings_def)
  have r: "runsLoop ?m1 ([[0.3, 0.4]], 2, 2)"
    by (simp add: canDetect_def handleTTLEvent_def newSettings_def)
  from stream_clear_one(1) [OF f(1) r] show ?thesis by (simp only: 1 fst_conv snd_conv f(2))
qed

text \<open>
  Claim C5, amended. After one change of the output line, take a run with no further
  change of the output line, with any other parameter changes and TTL events between the
  blocks. The blocks processed next that do not run the loop (their guard fails in the
  state in which they are processed, as with the gate closed or no channel selected, or
  they have no sample) emit no line clear and leave the flag set. The first block that
  runs the loop emits exactly one line clear, at its first sample, on the old line, and
  clears the flag; no block after it emits one. So the whole run has exactly one line
  clear. At the sample itself the line clear is emitted and the flag cleared whatever else
  that sample emits.
\<close>

theorem line_clear_once_in_run:
  assumes "m' = parameterValueChanged g (TtlOut v) m"
    and "keepsOutputLine pre" and "keepsOutputLine post"
    and "skipsLoop g m' pre"
    and "runsLoop (fst (process_run g m' pre)) (buffer, first, n)"
  shows "filter isClear (snd (process_run g m' (pre @ Block buffer first n # post)))
           = [TTLEvent LINE_CLEAR first (outputLine m)]
       \<and> filter isClear (snd (process_run g m' pre)) = []
       \<and> outputLineChanged (fst (process_run g m' pre))
       \<and> filter isClear (snd (process_stream (fst (process_run g m' pre)) buffer first n))
           = [TTLEvent LINE_CLEAR first (outputLine m)]
       \<and> \<not> outputLineChanged (fst (process_stream (fst (process_run g m' pre)) buffer first n))
       \<and> filter isClear
           (snd (process_run g (fst (process_stream (fst (process_run g m' pre)) buffer first n))
                   post)) = []
       \<and> (\<forall>w f i s. outputLineChanged w \<longrightarrow>
             filter isClear (snd (process_sample f i s w))
               = [TTLEvent LINE_CLEAR (f + int i) (lastOutputLine w)]
             \<and> \<not> outputLineChanged (fst (process_sample f i s w)))"
proof -
  let ?m1 = "fst (process_run g m' pre)"
  let ?m2 = "fst (process_stream ?m1 buffer first n)"
  have flag: "outputLineChanged m'" and old: "lastOutputLine m' = outputLine m"
    using assms(1) by simp_all
  note skip = run_clear_skip [OF assms(4,2)]
  have pre: "filter isClear (snd (process_run g m' pre)) = []" using skip by blast
  have f1: "outputLineChanged ?m1" using skip flag by simp
  have l1: "lastOutputLine ?m1 = outputLine m" using skip old by simp
  note one = stream_clear_one [OF f1 assms(5)]
  have blk: "filter isClear (snd (process_stream ?m1 buffer first n))
               = [TTLEvent LINE_CLEAR first (outputLine m)]"
    using one(1) l1 by simp
  have post: "filter isClear (snd (process_run g ?m2 post)) = []"
    by (rule run_clear_none [OF one(2) assms(3)])
  have all: "filter isClear (snd (process_run g m' (pre @ Block buffer first n # post)))
           = [TTLEvent LINE_CLEAR first (outputLine m)]"
    by (simp add: process_run_append run_Block pre blk post)
  have step: "\<forall>w f i s. outputLineChanged w \<longrightarrow>
             filter isClear (snd (process_sample f i s w))
               = [TTLEvent LINE_CLEAR (f + int i) (lastOutputLine w)]
             \<and> \<not> outputLineChanged (fst (process_sample f i s w))"
    by (simp add: process_sample_clear process_sample_outputLineChanged)
  note flagoff = one(2)
  show ?thesis
    by (intro conjI) (fact all pre f1 blk flagoff post step)+
qed

theorem line_clear_once_in_run_witness:
  "filter isClear
     (snd (process_run id
             (parameterValueChanged id (TtlOut 5) (newSettings\<lparr>gateLine := 2, isActive := False\<rparr>))
             gatedRun))
     = [TTLEvent LINE_CLEAR 2 0]"
proof -
  let ?m = "newSettings\<lparr>gateLine := 2, isActive := False\<rparr>"
  let ?m' = "parameterValueChanged id (TtlOut 5) ?m"
  let ?pre = "[Block [[0.1, 0.2]] 0 2, TTLInput 4 2 True]"
  let ?post = "[Block [[0.4, 0.5]] 4 2]"
  have nc: "\<not> canDetect ?m' [[0.1, 0.2]]" by (simp add: canDetect_def newSettings_def)
  have b1: "process_stream ?m' [[0.1, 0.2]] 0 2 = (?m', [])"
    by (simp only: process_stream_not_canDetect [OF nc]) (simp add: endOfBlock_eq newSettings_def)
  have skip: "skipsLoop id ?m' ?pre"
    using nc by (simp only: skipsLoop.simps runsLoop.simps) simp
  have m1: "fst (process_run id ?m' ?pre) = handleTTLEvent 4 2 True ?m'"
    by (simp only: run_Block process_run.simps(1,3,4) b1 fst_conv)
  have runs: "runsLoop (fst (process_run id ?m' ?pre)) ([[0.3, 0.4]], 2, 2)"
    by (simp only: m1) (simp add: canDetect_def handleTTLEvent_def newSettings_def)
  have g: "gatedRun = ?pre @ Block [[0.3, 0.4]] 2 2 # ?post" by (simp add: gatedRun_def)
  have o: "outputLine ?m = 0" by (simp add: newSettings_def)
  from line_clear_once_in_run [OF refl _ _ skip runs, of ?post, THEN conjunct1]
  show ?thesis by (simp only: g o) simp
qed

section \<open>Two changes of the output line in a row\<close>

text \<open>
  Claim C10. When the output line is changed from \<open>A\<close> to \<open>B\<close> and then from \<open>B\<close> to \<open>C\<close>
  with no block processed in between, \<open>lastOutputLine\<close> holds \<open>B\<close>. Whatever blocks are
  processed afterwards, at most one line clear is emitted, every line clear is on \<open>B\<close>, and
  so (for \<open>A\<close> other than \<open>B\<close>) none is on the original line \<open>A\<close>.
\<close>

theorem second_change_forgets_first_line:
  assumes "m2 = parameterValueChanged g (TtlOut C) (parameterValueChanged g (TtlOut B) m)"
    and "A = outputLine m"
  shows "lastOutputLine m2 = B \<and> outputLine m2 = C \<and> outputLineChanged m2
       \<and> length (filter isClear (snd (process_blocks m2 blocks))) \<le> 1
       \<and> (\<forall>e \<in> set (snd (process_blocks m2 blocks)). isClear e \<longrightarrow> line e = B)
       \<and> (A \<noteq> B \<longrightarrow> (\<forall>e \<in> set (snd (process_blocks m2 blocks)). isClear e \<longrightarrow> line e \<noteq> A))"
proof -
  have l: "lastOutputLine m2 = B" using assms(1) by simp
  let ?cs = "filter isClear (snd (process_blocks m2 blocks))"
  have c: "line e = B" if "e \<in> set (snd (process_blocks m2 blocks))" "isClear e" for e
  proof -
    from that have e: "e \<in> set ?cs" by simp
    from blocks_clear_cases [of m2 blocks] show ?thesis
    proof (elim disjE exE)
      assume "?cs = []"
      with e have "e \<in> set []" by (simp only:)
      then show ?thesis by simp
    next
      fix n assume "?cs = [TTLEvent LINE_CLEAR n (lastOutputLine m2)]"
      with e have "e \<in> set [TTLEvent LINE_CLEAR n (lastOutputLine m2)]" by (simp only:)
      then show ?thesis using l by simp
    qed
  qed
  have n: "length ?cs \<le> 1"
    using blocks_clear_cases [of m2 blocks] by (elim disjE exE) simp_all
  have "lastOutputLine m2 = B \<and> outputLine m2 = C \<and> outputLineChanged m2"
    using assms(1) by simp
  with n c show ?thesis by blast
qed

theorem second_change_forgets_first_line_witness:
  "filter isClear
     (snd (process_blocks
             (parameterValueChanged id (TtlOut 3)
                (parameterValueChanged id (TtlOut 2) (newSettings\<lparr>outputLine := 1\<rparr>)))
             [([[0.1, 0.2]], 0, 2), ([[0.3, 0.1]], 2, 2)]))
     = [TTLEvent LINE_CLEAR 0 2]
   \<and> TTLEvent LINE_CLEAR 0 1
       \<notin> set (snd (process_blocks
             (parameterValueChanged id (TtlOut 3)
                (parameterValueChanged id (TtlOut 2) (newSettings\<lparr>outputLine := 1\<rparr>)))
             [([[0.1, 0.2]], 0, 2), ([[0.3, 0.1]], 2, 2)]))"
proof -
  let ?m2 = "parameterValueChanged id (TtlOut 3)
                (parameterValueChanged id (TtlOut 2) (newSettings\<lparr>outputLine := 1\<rparr>))"
  let ?bs = "[([[0.1, 0.2]], 0, 2), ([[0.3, 0.1]], 2, 2)]"
  have r: "runsLoop ?m2 ([[0.1, 0.2]], 0, 2)" by (simp add: canDetect_def newSettings_def)
  have 1: "filter isClear (snd (process_blocks ?m2 ?bs)) = [TTLEvent LINE_CLEAR 0 2]"
    using blocks_clear_first [of ?m2 "[]" "[[0.1, 0.2]]" 0 2 "[([[0.3, 0.1]], 2, 2)]", OF _ _ r]
    by simp
  have "\<forall>e \<in> set (snd (process_blocks ?m2 ?bs)). isClear e \<longrightarrow> line e \<noteq> 1"
    using second_change_forgets_first_line
            [of ?m2 id 3 2 "newSettings\<lparr>outputLine := 1\<rparr>" 1 ?bs]
    by simp
  then have "TTLEvent LINE_CLEAR 0 1 \<notin> set (snd (process_blocks ?m2 ?bs))" by fastforce
  with 1 show ?thesis by simp
qed

section \<open>No landmark twice in a row\<close>

text \<open>
  Claim C6. Each branch of the chain in \<open>detect\<close> is guarded by \<open>currentPhase\<close> differing
  from the phase it sets: a landmark is found only when \<open>currentPhase\<close> is not its phase,
  it then sets \<open>currentPhase\<close> to its phase, and \<open>currentPhase\<close> changes at no sample
  without a landmark. So no two successive landmarks of a run are of the same type, and a
  run along which no landmark other than \<open>L\<close> is found finds at most one landmark and
  emits at most one on-event.
\<close>

theorem landmark_not_repeated:
  assumes "set (landmarksSeen first i xs m) \<subseteq> {L}"
  shows "length (landmarksSeen first i xs m) \<le> 1
       \<and> length (filter isOn (snd (sample_loop first i xs m))) \<le> 1
       \<and> distinct_adj (landmarksSeen first i xs m)
       \<and> (\<forall>s w sn. currentPhase (fst (detect sn s w))
              = (case landmark w s of None \<Rightarrow> currentPhase w | Some L' \<Rightarrow> phaseOf L')
            \<and> snd (detect sn s w)
              = (if landmark w s = Some (detectorType w)
                 then [TTLEvent TRIGGER_ON sn (outputLine w)] else [])
            \<and> currentPhase (fst (process_sample first i s w)) = currentPhase (fst (detect sn s w))
            \<and> (\<forall>L'. landmark w s = Some L' \<longrightarrow> currentPhase w \<noteq> phaseOf L')
            \<and> (\<forall>L'. currentPhase w = phaseOf L' \<longrightarrow> landmark w s \<noteq> Some L')
            \<and> (currentPhase (fst (process_sample first i s w)) \<noteq> currentPhase w
                 \<longrightarrow> landmark w s \<noteq> None))"
proof -
  have 1: "length (landmarksSeen first i xs m) \<le> 1"
    using seen_adj assms by (rule adj_single)
  have 2: "length (filter isOn (snd (sample_loop first i xs m))) \<le> 1"
    unfolding on_count by (rule le_trans [OF length_filter_le 1])
  have 3: "\<forall>L'. landmark w s = Some L' \<longrightarrow> currentPhase w \<noteq> phaseOf L'" for w s
    using landmark_guard by blast
  have 4: "\<forall>L'. currentPhase w = phaseOf L' \<longrightarrow> landmark w s \<noteq> Some L'" for w s
    using landmark_guard by fastforce
  have 5: "currentPhase (fst (process_sample first i s w)) \<noteq> currentPhase w
             \<longrightarrow> landmark w s \<noteq> None" for w s
    by (simp add: process_sample_currentPhase split: option.splits)
  have 6: "currentPhase (fst (process_sample first i s w)) = currentPhase (fst (detect sn s w))"
    for w s sn
    by (simp add: process_sample_currentPhase detect_phase)
  show ?thesis
    using 1 2 3 4 5 6 seen_adj [of first i xs m] detect_phase detect_events by simp
qed

theorem landmark_not_repeated_witness:
  "landmarksSeen 0 0 [0.5, 0.7, 0.4, 0.6, 0.3] (newSettings\<lparr>lastSample := 1\<rparr>) = [PEAK]
   \<and> length (filter isOn (snd (sample_loop 0 0 [0.5, 0.7, 0.4, 0.6, 0.3]
                                 (newSettings\<lparr>lastSample := 1\<rparr>)))) \<le> 1"
proof -
  have s: "landmarksSeen 0 0 [0.5, 0.7, 0.4, 0.6, 0.3] (newSettings\<lparr>lastSample := 1\<rparr>) = [PEAK]"
    by (simp add: process_sample_lastSample process_sample_currentPhase landmark_def
          newSettings_def)
  have "set (landmarksSeen 0 0 [0.5, 0.7, 0.4, 0.6, 0.3] (newSettings\<lparr>lastSample := 1\<rparr>))
          \<subseteq> {PEAK}"
    by (simp only: s) simp
  from landmark_not_repeated [OF this] s show ?thesis by blast
qed

section \<open>Events of a block are in order\<close>

text \<open>
  Claim C8. The events of a processed block are in non-decreasing order of sample number,
  and those of one sample number come in the fixed order on-event, time-out off-event,
  line clear (\<open>before\<close> holds between any earlier and any later event of the block). The
  result of a block is a function of the state and of the samples of the trigger channel:
  two buffers with the same number of channels and the same samples on the trigger
  channel give the same state and the same events.
\<close>

theorem events_in_order:
  "sorted_wrt before (snd (process_stream m buffer first n))
   \<and> sorted (map sample_number (snd (process_stream m buffer first n)))
   \<and> (length buffer' = length buffer
        \<and> blockSamples buffer' (triggerChannel m) n = blockSamples buffer (triggerChannel m) n
      \<longrightarrow> process_stream m buffer' first n = process_stream m buffer first n)"
proof -
  have 1: "sorted_wrt before (snd (process_stream m buffer first n))"
    by (rule process_stream_sorted)
  then have "sorted_wrt (\<lambda>a b. sample_number a \<le> sample_number b)
               (snd (process_stream m buffer first n))"
    by (rule sorted_wrt_mono_rel [rotated]) (rule before_le)
  then have 2: "sorted (map sample_number (snd (process_stream m buffer first n)))"
    by (simp add: sorted_map)
  from 1 2 process_stream_same_samples [of buffer' buffer m n first] show ?thesis by blast
qed

theorem events_in_order_witness:
  "snd (process_stream
          (newSettings\<lparr>outputLineChanged := True, lastOutputLine := 7, lastSample := 1\<rparr>)
          [[0.5, 0.7], [9, 9]] 0 2)
     = [TTLEvent TRIGGER_ON 0 0, TTLEvent LINE_CLEAR 0 7]
   \<and> process_stream
          (newSettings\<lparr>outputLineChanged := True, lastOutputLine := 7, lastSample := 1\<rparr>)
          [[0.5, 0.7], [8, 8]] 0 2
     = process_stream
          (newSettings\<lparr>outputLineChanged := True, lastOutputLine := 7, lastSample := 1\<rparr>)
          [[0.5, 0.7], [9, 9]] 0 2
   \<and> before (TTLEvent TRIGGER_ON 0 0) (TTLEvent LINE_CLEAR 0 7)"
proof -
  let ?m = "newSettings\<lparr>outputLineChanged := True, lastOutputLine := 7, lastSample := 1\<rparr>"
  have c: "canDetect ?m [[0.5, 0.7], [9, 9]]" by (simp add: canDetect_def newSettings_def)
  have b: "blockSamples [[0.5, 0.7], [9, 9]] (triggerChannel ?m) 2 = [0.5, 0.7]"
    "blockSamples [[0.5, 0.7], [8, 8]] (triggerChannel ?m) 2 = [0.5, 0.7]"
    by (simp_all add: blockSamples_whole newSettings_def)
  have e: "snd (process_stream ?m [[0.5, 0.7], [9, 9]] 0 2)
             = [TTLEvent TRIGGER_ON 0 0, TTLEvent LINE_CLEAR 0 7]"
    unfolding process_stream_canDetect [OF c] b
    by (simp add: loop_Cons process_sample_events process_sample_frame process_sample_lastSample
          process_sample_outputLineChanged process_sample_currentPhase
          process_sample_wasTriggered process_sample_samplesSinceTrigger
          targetHit_def timedOut_def landmark_def newSettings_def)
  from events_in_order [of ?m "[[0.5, 0.7], [9, 9]]" 0 2 "[[0.5, 0.7], [8, 8]]"] b
  have "sorted_wrt before (snd (process_stream ?m [[0.5, 0.7], [9, 9]] 0 2))"
    and "process_stream ?m [[0.5, 0.7], [8, 8]] 0 2 = process_stream ?m [[0.5, 0.7], [9, 9]] 0 2"
    by simp_all
  then show ?thesis unfolding e by simp
qed

section \<open>Gate re-derivation\<close>

text \<open>
  Claim C7. Reconfiguring the gate line to \<open>L\<close> stores \<open>L\<close> in \<open>gateLine\<close>; the detector
  becomes active when \<open>L\<close> is negative, and otherwise exactly when bit \<open>L\<close> of the stored
  \<open>lastTTLWord\<close> is set, whatever \<open>isActive\<close> was before and without any new digital
  event. The shift \<^verbatim>\<open>1ULL << newGateLine\<close> is defined for \<open>L < 64\<close> (the parameter offers
  the lines of a 16-line TTL selector and \<open>-1\<close>).
\<close>

theorem gate_line_rederives_isActive:
  assumes "L < 64"
  shows "gateLine (parameterValueChanged g (GateLine L) m) = L
    \<and> isActive (parameterValueChanged g (GateLine L) m)
        = (if L < 0 then True else bit (lastTTLWord m) (nat L))
    \<and> (0 \<le> L \<and> bit (lastTTLWord m) (nat L)
         \<longrightarrow> isActive (parameterValueChanged g (GateLine L) m))
    \<and> isActive (parameterValueChanged g (GateLine (- 1)) m)"
  by (simp add: Let_def bit_iff_and_push_bit_not_eq_0)

theorem gate_line_rederives_isActive_witness:
  "gateLine (parameterValueChanged id (GateLine 3) (newSettings\<lparr>isActive := False, lastTTLWord := 8\<rparr>)) = 3
   \<and> isActive (parameterValueChanged id (GateLine 3) (newSettings\<lparr>isActive := False, lastTTLWord := 8\<rparr>))
   \<and> \<not> isActive (parameterValueChanged id (GateLine 2) (newSettings\<lparr>isActive := True, lastTTLWord := 8\<rparr>))
   \<and> isActive (parameterValueChanged id (GateLine (- 1)) (newSettings\<lparr>isActive := False, lastTTLWord := 8\<rparr>))"
  using gate_line_rederives_isActive [of 3 id "newSettings\<lparr>isActive := False, lastTTLWord := 8\<rparr>"]
        gate_line_rederives_isActive [of 2 id "newSettings\<lparr>isActive := True, lastTTLWord := 8\<rparr>"]
  by (simp add: newSettings_def)

end
